theory Spec2Isabelle
  imports Complex_Main "HOL-Library.Log_Nat"
begin

section \<open>Strings\<close>

text \<open>
  An ECMAScript string is a sequence of UTF-16 code units.  A code unit is modelled by
  its number, a string by the list of its code units; \<open>js\<close> turns a literal of ASCII
  characters into such a string.
\<close>

type_synonym jstring = "nat list"

definition js :: "string \<Rightarrow> jstring" where
  "js s = map of_char s"

text \<open>\<open>Array.prototype.join\<close> on an array of strings.\<close>

fun join :: "jstring \<Rightarrow> jstring list \<Rightarrow> jstring" where
  "join sep [] = []"
| "join sep [x] = x"
| "join sep (x # y # ys) = x @ sep @ join sep (y # ys)"

text \<open>\<open>String.prototype.split\<close> with a separator of one code unit: never empty.\<close>

fun split_on :: "nat \<Rightarrow> jstring \<Rightarrow> jstring list" where
  "split_on c [] = [[]]"
| "split_on c (x # xs) =
     (if x = c then [] # split_on c xs
      else (case split_on c xs of [] \<Rightarrow> [[x]] | l # ls \<Rightarrow> (x # l) # ls))"

text \<open>
  \<open>str.replace(/C/g, r)\<close> for a pattern \<open>C\<close> that matches single code units (a
  character or a character class) and a replacement \<open>r\<close> without \<open>$\<close>.
\<close>

definition replace_all :: "(nat \<Rightarrow> bool) \<Rightarrow> jstring \<Rightarrow> jstring \<Rightarrow> jstring" where
  "replace_all P r s = concat (map (\<lambda>c. if P c then r else [c]) s)"

text \<open>\<open>str.includes(c)\<close> for a needle of one code unit.\<close>

definition str_includes :: "jstring \<Rightarrow> nat \<Rightarrow> bool" where
  "str_includes s c = (c \<in> set s)"

text \<open>\<open>str.repeat(n)\<close>.\<close>

definition repeat :: "jstring \<Rightarrow> nat \<Rightarrow> jstring" where
  "repeat s n = concat (replicate n s)"

text \<open>The decimal digits of a natural number (an array index, an exponent).\<close>

fun decimal :: "nat \<Rightarrow> jstring" where
  "decimal n = (if n < 10 then [48 + n] else decimal (n div 10) @ [48 + n mod 10])"

declare decimal.simps [simp del]

section \<open>Numbers\<close>

text \<open>
  An ECMAScript Number is an IEEE 754 binary64 value.  A finite one is modelled by the
  rational number it denotes (the two zeros are one value: no operation of this program
  tells them apart).  \<open>to_double\<close> is the rounding of a real value to the nearest
  binary64 value, ties to even, which the parser applies to a numeric literal;
  \<open>Number_toString\<close> is \<open>Number::toString\<close> in radix 10: the shortest digits that
  round back to the number.
\<close>

datatype jsnum = Finite rat | PosInf | NegInf | NaN

fun negate :: "jsnum \<Rightarrow> jsnum" where
  "negate (Finite x) = Finite (- x)"
| "negate PosInf = NegInf"
| "negate NegInf = PosInf"
| "negate NaN = NaN"

text \<open>For \<open>x > 0\<close>: the \<open>e\<close> with \<open>2 ^ e \<le> x < 2 ^ (e + 1)\<close>.\<close>

definition ilog2 :: "rat \<Rightarrow> int" where
  "ilog2 x = (if 1 \<le> x then int (floorlog 2 (nat \<lfloor>x\<rfloor>)) - 1
              else - int (floorlog 2 (nat (\<lceil>1 / x\<rceil> - 1))))"

text \<open>For \<open>x > 0\<close>: the \<open>n\<close> with \<open>10 ^ (n - 1) \<le> x < 10 ^ n\<close>.\<close>

definition ilog10 :: "rat \<Rightarrow> int" where
  "ilog10 x = (if 1 \<le> x then int (floorlog 10 (nat \<lfloor>x\<rfloor>))
               else 1 - int (floorlog 10 (nat (\<lceil>1 / x\<rceil> - 1))))"

definition round_half_even :: "rat \<Rightarrow> int" where
  "round_half_even t =
     (let f = \<lfloor>t\<rfloor>; d = t - of_int f
      in if d < 1 / 2 then f else if 1 / 2 < d then f + 1
         else if even f then f else f + 1)"

text \<open>
  A positive value: 53 significant bits, the exponent at least \<open>-1022\<close> (below it the
  values are subnormal), and infinity from \<open>2 ^ 1024 - 2 ^ 970\<close> on.
\<close>

definition round_pos :: "rat \<Rightarrow> jsnum" where
  "round_pos x =
     (if 2 ^ 1024 - 2 ^ 970 \<le> x then PosInf
      else let e = max (ilog2 x) (- 1022); q = 2 powi (e - 52)
           in Finite (of_int (round_half_even (x / q)) * q))"

definition to_double :: "rat \<Rightarrow> jsnum" where
  "to_double x =
     (if x = 0 then Finite 0
      else if x < 0 then negate (round_pos (- x))
      else round_pos x)"

text \<open>
  \<open>Number::toString\<close>, step 5: integers \<open>n\<close>, \<open>k\<close>, \<open>s\<close> with \<open>k \<ge> 1\<close>,
  \<open>10 ^ (k - 1) \<le> s < 10 ^ k\<close>, \<open>s * 10 ^ (n - k)\<close> rounding to \<open>x\<close>, and \<open>k\<close> as
  small as possible; of two such \<open>s\<close> the one closest to \<open>x\<close>, of two equally close the
  even one.  Only the two \<open>k\<close>-digit values around \<open>x\<close> can round to it.
\<close>

definition digit_candidate :: "rat \<Rightarrow> int \<Rightarrow> nat \<Rightarrow> (int \<times> int) option" where
  "digit_candidate x n0 k =
     (let scale = 10 powi (n0 - int k);
          lo = \<lfloor>x / scale\<rfloor>;
          hi = lo + 1;
          lo_ok = (to_double (of_int lo * scale) = Finite x);
          hi_ok = (to_double (of_int hi * scale) = Finite x);
          pick = (if lo_ok \<and> hi_ok then
                    (let dl = x - of_int lo * scale; dh = of_int hi * scale - x
                     in if dl < dh then Some lo else if dh < dl then Some hi
                        else if even lo then Some lo else Some hi)
                  else if lo_ok then Some lo
                  else if hi_ok then Some hi
                  else None)
      in case pick of
           None \<Rightarrow> None
         | Some s \<Rightarrow> if s = 10 ^ k then Some (10 ^ (k - 1), n0 + 1) else Some (s, n0))"

text \<open>
  The search for the least \<open>k\<close>.  A binary64 value is a multiple of \<open>2 ^ - 1074\<close>, so
  with \<open>n0 + 1074\<close> digits the value itself is a candidate and the search ends there.
\<close>

function shortest_digits_from :: "rat \<Rightarrow> int \<Rightarrow> nat \<Rightarrow> nat \<Rightarrow> int \<times> nat \<times> int" where
  "shortest_digits_from x n0 K k =
     (case digit_candidate x n0 k of
        Some (s, n) \<Rightarrow> (s, k, n)
      | None \<Rightarrow>
          if K \<le> k then (\<lfloor>x / 10 powi (n0 - int k)\<rfloor>, k, n0)
          else shortest_digits_from x n0 K (Suc k))"
  by pat_completeness auto
termination
  by (relation "measure (\<lambda>(x, n0, K, k). K - k)") auto

declare shortest_digits_from.simps [simp del]

definition shortest_digits :: "rat \<Rightarrow> int \<times> nat \<times> int" where
  "shortest_digits x = (let n0 = ilog10 x in shortest_digits_from x n0 (nat (n0 + 1074)) 1)"

text \<open>\<open>Number::toString\<close>, steps 6 to 10: the layout of the digits.\<close>

definition format_digits :: "int \<Rightarrow> nat \<Rightarrow> int \<Rightarrow> jstring" where
  "format_digits s k n =
     (let ds = decimal (nat s) in
      if int k \<le> n \<and> n \<le> 21 then ds @ replicate (nat (n - int k)) 48
      else if 0 < n \<and> n \<le> 21 then take (nat n) ds @ [46] @ drop (nat n) ds
      else if - 6 < n \<and> n \<le> 0 then [48, 46] @ replicate (nat (- n)) 48 @ ds
      else
        (let e = n - 1;
             es = (if e < 0 then 45 else 43) # decimal (nat \<bar>e\<bar>)
         in if k = 1 then ds @ [101] @ es
            else take 1 ds @ [46] @ drop 1 ds @ [101] @ es))"

definition pos_toString :: "rat \<Rightarrow> jstring" where
  "pos_toString x = (case shortest_digits x of (s, k, n) \<Rightarrow> format_digits s k n)"

fun Number_toString :: "jsnum \<Rightarrow> jstring" where
  "Number_toString NaN = js ''NaN''"
| "Number_toString PosInf = js ''Infinity''"
| "Number_toString NegInf = js ''-Infinity''"
| "Number_toString (Finite x) =
     (if x = 0 then js ''0''
      else if x < 0 then js ''-'' @ pos_toString (- x)
      else pos_toString x)"

section \<open>JSON values\<close>

text \<open>
  \<open>type JsonValue = string | number | boolean | null | JsonObject | Array<JsonValue>\<close>.
  An object is the list of its own properties in the order in which \<open>Object.keys\<close> and
  \<open>Object.entries\<close> enumerate them; its keys are distinct.
\<close>

datatype json =
    Null
  | Bool bool
  | Number jsnum
  | String jstring
  | Array "json list"
  | Object "(jstring \<times> json) list"

text \<open>\<open>!obj\<close>: the falsy values are null, false, zero, NaN and the empty string.\<close>

fun falsy :: "json \<Rightarrow> bool" where
  "falsy Null = True"
| "falsy (Bool b) = (\<not> b)"
| "falsy (Number n) = (n = Finite 0 \<or> n = NaN)"
| "falsy (String s) = (s = [])"
| "falsy (Array xs) = False"
| "falsy (Object kvs) = False"

text \<open>
  \<open>String(value)\<close>.  An array joins its elements with commas, null elements as the
  empty string; an object is \<open>[object Object]\<close>.
\<close>

fun String_js :: "json \<Rightarrow> jstring" where
  "String_js Null = js ''null''"
| "String_js (Bool b) = (if b then js ''true'' else js ''false'')"
| "String_js (Number n) = Number_toString n"
| "String_js (String s) = s"
| "String_js (Array xs) =
     join (js '','') (map (\<lambda>x. if x = Null then [] else String_js x) xs)"
| "String_js (Object kvs) = js ''[object Object]''"

section \<open>\<open>JSON.stringify\<close>\<close>

definition hex_digit :: "nat \<Rightarrow> nat" where
  "hex_digit d = (if d < 10 then 48 + d else 87 + d)"

definition unicode_escape :: "nat \<Rightarrow> jstring" where
  "unicode_escape c =
     [92, 117] @ [hex_digit (c div 4096 mod 16), hex_digit (c div 256 mod 16),
                  hex_digit (c div 16 mod 16), hex_digit (c mod 16)]"

definition is_high_surrogate :: "nat \<Rightarrow> bool" where
  "is_high_surrogate c = (55296 \<le> c \<and> c \<le> 56319)"

definition is_low_surrogate :: "nat \<Rightarrow> bool" where
  "is_low_surrogate c = (56320 \<le> c \<and> c \<le> 57343)"

text \<open>
  \<open>QuoteJSONString\<close> without the enclosing quotes: the short escapes, a \<open>u00xx\<close> escape for
  the other control characters, a \<open>udxxx\<close> escape for a surrogate that has no partner.
\<close>

fun quote_units :: "jstring \<Rightarrow> jstring" where
  "quote_units [] = []"
| "quote_units (c # cs) =
     (if c = 8 then [92, 98] @ quote_units cs
      else if c = 9 then [92, 116] @ quote_units cs
      else if c = 10 then [92, 110] @ quote_units cs
      else if c = 12 then [92, 102] @ quote_units cs
      else if c = 13 then [92, 114] @ quote_units cs
      else if c = 34 then [92, 34] @ quote_units cs
      else if c = 92 then [92, 92] @ quote_units cs
      else if c < 32 then unicode_escape c @ quote_units cs
      else if is_high_surrogate c then
        (case cs of
           [] \<Rightarrow> unicode_escape c
         | d # ds \<Rightarrow>
             if is_low_surrogate d then c # d # quote_units ds
             else unicode_escape c @ quote_units cs)
      else if is_low_surrogate c then unicode_escape c @ quote_units cs
      else c # quote_units cs)"

definition QuoteJSONString :: "jstring \<Rightarrow> jstring" where
  "QuoteJSONString s = [34] @ quote_units s @ [34]"

text \<open>
  \<open>SerializeJSONProperty\<close>, \<open>SerializeJSONArray\<close> and \<open>SerializeJSONObject\<close> for a
  gap and the current indentation.  A number that is not finite is written \<open>null\<close>.
\<close>

fun serialize :: "jstring \<Rightarrow> jstring \<Rightarrow> json \<Rightarrow> jstring" where
  "serialize gap ind Null = js ''null''"
| "serialize gap ind (Bool b) = (if b then js ''true'' else js ''false'')"
| "serialize gap ind (Number n) =
     (case n of Finite x \<Rightarrow> Number_toString n | _ \<Rightarrow> js ''null'')"
| "serialize gap ind (String s) = QuoteJSONString s"
| "serialize gap ind (Array xs) =
     (if xs = [] then js ''[]''
      else
        let stepback = ind; ind' = ind @ gap;
            partial = map (serialize gap ind') xs
        in if gap = [] then js ''['' @ join (js '','') partial @ js '']''
           else js ''['' @ [10] @ ind' @ join (js '','' @ [10] @ ind') partial
                @ [10] @ stepback @ js '']'')"
| "serialize gap ind (Object kvs) =
     (if kvs = [] then js ''{}''
      else
        let stepback = ind; ind' = ind @ gap;
            partial = map (\<lambda>kv. QuoteJSONString (fst kv) @ js '':''
                              @ (if gap = [] then [] else js '' '')
                              @ serialize gap ind' (snd kv)) kvs
        in if gap = [] then js ''{'' @ join (js '','') partial @ js ''}''
           else js ''{'' @ [10] @ ind' @ join (js '','' @ [10] @ ind') partial
                @ [10] @ stepback @ js ''}'')"

text \<open>
  \<open>JSON.stringify(value, null, space)\<close> for a JSON value and a number of spaces: the
  gap is that many spaces, ten at most.  \<open>JSON.stringify(value)\<close> has the empty gap.
\<close>

definition JSON_stringify :: "json \<Rightarrow> int \<Rightarrow> jstring" where
  "JSON_stringify v space = serialize (replicate (nat (min 10 space)) 32) [] v"

section \<open>\<open>JSON.parse\<close>\<close>

text \<open>
  The built-in parser, after the JSON grammar of ECMA-404 and the semantics of ECMA-262:
  the text is cut into tokens, the tokens are read by recursive descent, and \<open>None\<close> is
  the \<open>SyntaxError\<close> the built-in throws.
\<close>

datatype token =
    LBracket | RBracket | LBrace | RBrace | Colon | Comma
  | TString jstring | TNumber jsnum | TTrue | TFalse | TNull

definition is_digit :: "nat \<Rightarrow> bool" where
  "is_digit c = (48 \<le> c \<and> c \<le> 57)"

definition hex_value :: "nat \<Rightarrow> nat option" where
  "hex_value c =
     (if 48 \<le> c \<and> c \<le> 57 then Some (c - 48)
      else if 97 \<le> c \<and> c \<le> 102 then Some (c - 87)
      else if 65 \<le> c \<and> c \<le> 70 then Some (c - 55)
      else None)"

text \<open>The character after a backslash, for the escapes of one character.\<close>

definition unescape :: "nat \<Rightarrow> nat option" where
  "unescape e =
     (if e = 34 then Some 34 else if e = 92 then Some 92 else if e = 47 then Some 47
      else if e = 98 then Some 8 else if e = 102 then Some 12 else if e = 110 then Some 10
      else if e = 114 then Some 13 else if e = 116 then Some 9 else None)"

text \<open>An escape, from behind its backslash: the code unit it denotes and the rest.\<close>

definition lex_escape :: "jstring \<Rightarrow> (nat \<times> jstring) option" where
  "lex_escape cs =
     (case cs of
        [] \<Rightarrow> None
      | e # es \<Rightarrow>
          if e = 117 then
            (case es of
               h1 # h2 # h3 # h4 # r \<Rightarrow>
                 (case (hex_value h1, hex_value h2, hex_value h3, hex_value h4) of
                    (Some a, Some b, Some c, Some d) \<Rightarrow>
                      Some (a * 4096 + b * 256 + c * 16 + d, r)
                  | _ \<Rightarrow> None)
             | _ \<Rightarrow> None)
          else map_option (\<lambda>u. (u, es)) (unescape e))"

lemma lex_escape_shorter: "lex_escape cs = Some (u, r) \<Longrightarrow> length r < length cs"
  unfolding lex_escape_def
  by (cases cs) (auto split: if_splits list.splits option.splits)

text \<open>
  A string, from behind its opening quote: its code units and the text behind its
  closing quote.  A control character is not allowed in a string.
\<close>

function lex_string :: "jstring \<Rightarrow> (jstring \<times> jstring) option" where
  "lex_string [] = None"
| "lex_string (c # cs) =
     (if c = 34 then Some ([], cs)
      else if c = 92 then
        (case lex_escape cs of
           None \<Rightarrow> None
         | Some (u, r) \<Rightarrow> map_option (\<lambda>(s, rest). (u # s, rest)) (lex_string r))
      else if c < 32 then None
      else map_option (\<lambda>(s, rest). (c # s, rest)) (lex_string cs))"
  by pat_completeness auto
termination
  by (relation "measure length") (auto dest: lex_escape_shorter)

declare lex_string.simps [simp del]

definition digits_value :: "jstring \<Rightarrow> nat" where
  "digits_value ds = foldl (\<lambda>a c. 10 * a + (c - 48)) 0 ds"

text \<open>
  A number: an optional minus sign, an integer part without a leading zero, an optional
  fraction, an optional exponent.  Its value is rounded to binary64.
\<close>

definition lex_digits :: "jstring \<Rightarrow> (jstring \<times> jstring) option" where
  "lex_digits s =
     (let ds = takeWhile is_digit s
      in if ds = [] then None else Some (ds, dropWhile is_digit s))"

definition lex_int :: "jstring \<Rightarrow> (jstring \<times> jstring) option" where
  "lex_int s =
     (case lex_digits s of
        None \<Rightarrow> None
      | Some (ds, r) \<Rightarrow> if hd ds = 48 \<and> 1 < length ds then None else Some (ds, r))"

definition lex_frac :: "jstring \<Rightarrow> (jstring \<times> jstring) option" where
  "lex_frac s =
     (case s of
        [] \<Rightarrow> Some ([], s)
      | c # r \<Rightarrow> if c = 46 then lex_digits r else Some ([], s))"

definition lex_exp :: "jstring \<Rightarrow> (int \<times> jstring) option" where
  "lex_exp s =
     (case s of
        [] \<Rightarrow> Some (0, s)
      | c # r \<Rightarrow>
          if c = 101 \<or> c = 69 then
            (case r of
               [] \<Rightarrow> None
             | d # r' \<Rightarrow>
                 if d = 45 then
                   map_option (\<lambda>(ds, t). (- int (digits_value ds), t)) (lex_digits r')
                 else if d = 43 then
                   map_option (\<lambda>(ds, t). (int (digits_value ds), t)) (lex_digits r')
                 else map_option (\<lambda>(ds, t). (int (digits_value ds), t)) (lex_digits r))
          else Some (0, s))"

definition lex_unsigned :: "jstring \<Rightarrow> (rat \<times> jstring) option" where
  "lex_unsigned s =
     (case lex_int s of
        None \<Rightarrow> None
      | Some (ip, s1) \<Rightarrow>
          (case lex_frac s1 of
             None \<Rightarrow> None
           | Some (fp, s2) \<Rightarrow>
               (case lex_exp s2 of
                  None \<Rightarrow> None
                | Some (ex, s3) \<Rightarrow>
                    Some (of_nat (digits_value (ip @ fp)) * 10 powi (ex - int (length fp)),
                          s3))))"

definition lex_number :: "jstring \<Rightarrow> (jsnum \<times> jstring) option" where
  "lex_number s =
     (case s of
        [] \<Rightarrow> None
      | c # r \<Rightarrow>
          if c = 45 then map_option (\<lambda>(v, t). (to_double (- v), t)) (lex_unsigned r)
          else map_option (\<lambda>(v, t). (to_double v, t)) (lex_unsigned s))"

lemma lex_digits_shorter: "lex_digits s = Some (ds, r) \<Longrightarrow> length r < length s"
  unfolding lex_digits_def Let_def
  by (cases s) (auto simp: le_imp_less_Suc length_dropWhile_le split: if_splits)

lemma lex_int_shorter: "lex_int s = Some (ds, r) \<Longrightarrow> length r < length s"
  unfolding lex_int_def
  by (auto split: option.splits if_splits dest: lex_digits_shorter)

lemma lex_frac_shorter: "lex_frac s = Some (ds, r) \<Longrightarrow> length r \<le> length s"
  unfolding lex_frac_def
  by (cases s) (auto split: if_splits dest: lex_digits_shorter)

lemma lex_exp_shorter: "lex_exp s = Some (e, r) \<Longrightarrow> length r \<le> length s"
  unfolding lex_exp_def
  by (cases s) (auto split: if_splits list.splits dest!: lex_digits_shorter)

lemma lex_unsigned_shorter: "lex_unsigned s = Some (v, r) \<Longrightarrow> length r < length s"
  unfolding lex_unsigned_def
  by (auto split: option.splits
      dest!: lex_int_shorter lex_frac_shorter lex_exp_shorter)

lemma lex_number_shorter: "lex_number s = Some (n, r) \<Longrightarrow> length r < length s"
  unfolding lex_number_def
  by (cases s) (auto split: if_splits dest!: lex_unsigned_shorter)

lemma lex_string_shorter: "lex_string cs = Some (s, rest) \<Longrightarrow> length rest < length cs"
proof (induction cs arbitrary: s rest rule: lex_string.induct)
  case 1
  then show ?case by (simp add: lex_string.simps)
next
  case (2 c cs)
  show ?case
  proof (cases "c = 34")
    case True
    with "2.prems" show ?thesis by (simp add: lex_string.simps)
  next
    case n34: False
    show ?thesis
    proof (cases "c = 92")
      case True
      with "2.prems" n34 obtain u r s' where
        e: "lex_escape cs = Some (u, r)" and l: "lex_string r = Some (s', rest)"
        by (auto simp: lex_string.simps split: option.splits)
      from "2.IH"(1)[OF n34 True e refl l] lex_escape_shorter[OF e] show ?thesis by simp
    next
      case False
      with "2.prems" n34 obtain s' where
        c: "\<not> c < 32" and l: "lex_string cs = Some (s', rest)"
        by (auto simp: lex_string.simps split: if_splits)
      from "2.IH"(2)[OF n34 False c l] show ?thesis by simp
    qed
  qed
qed

text \<open>The tokens of a text; white space is space, tab, line feed and carriage return.\<close>

function tokenize :: "jstring \<Rightarrow> token list option" where
  "tokenize [] = Some []"
| "tokenize (c # cs) =
     (if c = 32 \<or> c = 9 \<or> c = 10 \<or> c = 13 then tokenize cs
      else if c = 91 then map_option (Cons LBracket) (tokenize cs)
      else if c = 93 then map_option (Cons RBracket) (tokenize cs)
      else if c = 123 then map_option (Cons LBrace) (tokenize cs)
      else if c = 125 then map_option (Cons RBrace) (tokenize cs)
      else if c = 58 then map_option (Cons Colon) (tokenize cs)
      else if c = 44 then map_option (Cons Comma) (tokenize cs)
      else if c = 34 then
        (case lex_string cs of
           None \<Rightarrow> None
         | Some (s, rest) \<Rightarrow> map_option (Cons (TString s)) (tokenize rest))
      else if c = 45 \<or> is_digit c then
        (case lex_number (c # cs) of
           None \<Rightarrow> None
         | Some (n, rest) \<Rightarrow> map_option (Cons (TNumber n)) (tokenize rest))
      else if c = 116 \<and> take 3 cs = js ''rue'' then map_option (Cons TTrue) (tokenize (drop 3 cs))
      else if c = 102 \<and> take 4 cs = js ''alse'' then map_option (Cons TFalse) (tokenize (drop 4 cs))
      else if c = 110 \<and> take 3 cs = js ''ull'' then map_option (Cons TNull) (tokenize (drop 3 cs))
      else None)"
  by pat_completeness auto
termination
  by (relation "measure length")
    (auto dest: lex_string_shorter lex_number_shorter)

declare tokenize.simps [simp del]

text \<open>
  An array index is a canonical numeric string below \<open>2 ^ 32 - 1\<close>.  An object lists
  its array indices first, in ascending order, and its other keys in the order in
  which they were created; defining a property again replaces its value in place.
\<close>

definition array_index :: "jstring \<Rightarrow> nat option" where
  "array_index k =
     (if k \<noteq> [] \<and> list_all is_digit k \<and> (hd k \<noteq> 48 \<or> length k = 1)
         \<and> digits_value k < 4294967295
      then Some (digits_value k) else None)"

fun insert_index :: "nat \<Rightarrow> jstring \<Rightarrow> json \<Rightarrow> (jstring \<times> json) list \<Rightarrow> (jstring \<times> json) list" where
  "insert_index i k v [] = [(k, v)]"
| "insert_index i k v ((k', v') # rest) =
     (case array_index k' of
        None \<Rightarrow> (k, v) # (k', v') # rest
      | Some j \<Rightarrow>
          if j < i then (k', v') # insert_index i k v rest
          else (k, v) # (k', v') # rest)"

definition obj_put :: "(jstring \<times> json) list \<Rightarrow> jstring \<Rightarrow> json \<Rightarrow> (jstring \<times> json) list" where
  "obj_put obj k v =
     (if k \<in> fst ` set obj then map (\<lambda>kv. if fst kv = k then (k, v) else kv) obj
      else (case array_index k of
              None \<Rightarrow> obj @ [(k, v)]
            | Some i \<Rightarrow> insert_index i k v obj))"

definition build_object :: "(jstring \<times> json) list \<Rightarrow> (jstring \<times> json) list" where
  "build_object members = foldl (\<lambda>obj kv. obj_put obj (fst kv) (snd kv)) [] members"

text \<open>
  The grammar, by recursive descent.  The first argument bounds the depth of the
  recursion; \<open>JSON_parse\<close> starts it high enough for every text of that many tokens.
\<close>

fun parse_value :: "nat \<Rightarrow> token list \<Rightarrow> (json \<times> token list) option"
  and parse_elements :: "nat \<Rightarrow> token list \<Rightarrow> (json list \<times> token list) option"
  and parse_members :: "nat \<Rightarrow> token list \<Rightarrow> ((jstring \<times> json) list \<times> token list) option"
where
  "parse_value depth ts =
     (if depth = 0 then None
      else
        (case ts of
           [] \<Rightarrow> None
         | t # r \<Rightarrow>
             (case t of
                TNull \<Rightarrow> Some (Null, r)
              | TTrue \<Rightarrow> Some (Bool True, r)
              | TFalse \<Rightarrow> Some (Bool False, r)
              | TNumber n \<Rightarrow> Some (Number n, r)
              | TString s \<Rightarrow> Some (String s, r)
              | LBracket \<Rightarrow>
                  (if r \<noteq> [] \<and> hd r = RBracket then Some (Array [], tl r)
                   else map_option (\<lambda>(vs, r'). (Array vs, r'))
                          (parse_elements (depth - 1) r))
              | LBrace \<Rightarrow>
                  (if r \<noteq> [] \<and> hd r = RBrace then Some (Object [], tl r)
                   else map_option (\<lambda>(ms, r'). (Object (build_object ms), r'))
                          (parse_members (depth - 1) r))
              | _ \<Rightarrow> None)))"
| "parse_elements depth ts =
     (if depth = 0 then None
      else
        (case parse_value (depth - 1) ts of
           None \<Rightarrow> None
         | Some (v, r) \<Rightarrow>
             (case r of
                [] \<Rightarrow> None
              | t # r' \<Rightarrow>
                  if t = Comma then
                    map_option (\<lambda>(vs, r''). (v # vs, r'')) (parse_elements (depth - 1) r')
                  else if t = RBracket then Some ([v], r')
                  else None)))"
| "parse_members depth ts =
     (if depth = 0 then None
      else
        (case ts of
           TString k # Colon # r \<Rightarrow>
             (case parse_value (depth - 1) r of
                None \<Rightarrow> None
              | Some (v, r1) \<Rightarrow>
                  (case r1 of
                     [] \<Rightarrow> None
                   | t # r2 \<Rightarrow>
                       if t = Comma then
                         map_option (\<lambda>(ms, r3). ((k, v) # ms, r3))
                           (parse_members (depth - 1) r2)
                       else if t = RBrace then Some ([(k, v)], r2)
                       else None))
         | _ \<Rightarrow> None))"

declare parse_value.simps [simp del] parse_elements.simps [simp del]
  parse_members.simps [simp del]

definition JSON_parse :: "jstring \<Rightarrow> json option" where
  "JSON_parse text =
     (case tokenize text of
        None \<Rightarrow> None
      | Some ts \<Rightarrow>
          (case parse_value (2 * length ts + 2) ts of
             None \<Rightarrow> None
           | Some (v, rest) \<Rightarrow> if rest = [] then Some v else None))"

section \<open>The formatter (\<open>utils/jsonFormatter.ts\<close>)\<close>

record FormatResult =
  formatted :: jstring
  format_error :: "jstring option"

record ValidationResult =
  valid :: bool
  error :: "jstring option"
  line :: "nat option"
  column :: "nat option"

text \<open>
  What \<open>JSON.parse\<close> throws on a text it rejects is the engine's: a \<open>SyntaxError\<close>
  with a message whose wording differs between engines.  The functions that read the
  thrown value take it as a parameter, a function from the rejected text.
\<close>

datatype thrown = SyntaxError jstring | OtherError jstring | NotAnError

text \<open>\<open>error instanceof Error ? error.message : 'Invalid JSON'\<close>.\<close>

fun message_of :: "thrown \<Rightarrow> jstring" where
  "message_of (SyntaxError m) = m"
| "message_of (OtherError m) = m"
| "message_of NotAnError = js ''Invalid JSON''"

text \<open>\<open>String.prototype.trim\<close> strips white space and line terminators at both ends.\<close>

definition is_js_space :: "nat \<Rightarrow> bool" where
  "is_js_space c =
     (c = 9 \<or> c = 10 \<or> c = 11 \<or> c = 12 \<or> c = 13 \<or> c = 32 \<or> c = 160 \<or> c = 5760
      \<or> (8192 \<le> c \<and> c \<le> 8202) \<or> c = 8232 \<or> c = 8233 \<or> c = 8239 \<or> c = 8287
      \<or> c = 12288 \<or> c = 65279)"

definition trim :: "jstring \<Rightarrow> jstring" where
  "trim s = rev (dropWhile is_js_space (rev (dropWhile is_js_space s)))"

definition formatJson :: "(jstring \<Rightarrow> thrown) \<Rightarrow> jstring \<Rightarrow> int \<Rightarrow> FormatResult" where
  "formatJson thrown_on input spaces =
     (if trim input = [] then
        \<lparr>formatted = [], format_error = Some (js ''Input is empty'')\<rparr>
      else
        (case JSON_parse input of
           Some parsed \<Rightarrow>
             \<lparr>formatted = JSON_stringify parsed spaces, format_error = None\<rparr>
         | None \<Rightarrow>
             \<lparr>formatted = [], format_error = Some (message_of (thrown_on input))\<rparr>))"

definition minifyJson :: "(jstring \<Rightarrow> thrown) \<Rightarrow> jstring \<Rightarrow> FormatResult" where
  "minifyJson thrown_on input =
     (if trim input = [] then
        \<lparr>formatted = [], format_error = Some (js ''Input is empty'')\<rparr>
      else
        (case JSON_parse input of
           Some parsed \<Rightarrow>
             \<lparr>formatted = serialize [] [] parsed, format_error = None\<rparr>
         | None \<Rightarrow>
             \<lparr>formatted = [], format_error = Some (message_of (thrown_on input))\<rparr>))"

text \<open>
  \<open>error.message.match(/position (\d+)/)\<close>: the digits of the leftmost match, as many
  as there are.
\<close>

fun match_position :: "jstring \<Rightarrow> jstring option" where
  "match_position [] = None"
| "match_position (c # cs) =
     (if take 9 (c # cs) = js ''position '' \<and> takeWhile is_digit (drop 9 (c # cs)) \<noteq> []
      then Some (takeWhile is_digit (drop 9 (c # cs)))
      else match_position cs)"

definition validateJson :: "(jstring \<Rightarrow> thrown) \<Rightarrow> jstring \<Rightarrow> ValidationResult" where
  "validateJson thrown_on input =
     (if trim input = [] then
        \<lparr>valid = False, error = Some (js ''Input is empty''), line = None, column = None\<rparr>
      else
        (case JSON_parse input of
           Some parsed \<Rightarrow> \<lparr>valid = True, error = None, line = None, column = None\<rparr>
         | None \<Rightarrow>
             (case thrown_on input of
                SyntaxError message \<Rightarrow>
                  (let position = (case match_position message of
                                     Some digits \<Rightarrow> digits_value digits
                                   | None \<Rightarrow> 0);
                       lines = split_on 10 (take position input)
                   in \<lparr>valid = False, error = Some message,
                       line = Some (length lines),
                       column = Some (length (last lines) + 1)\<rparr>)
              | e \<Rightarrow> \<lparr>valid = False, error = Some (message_of e),
                       line = None, column = None\<rparr>)))"

text \<open>\<open>parseJson\<close>: the parsed value, or null when the text is rejected.\<close>

definition parseJson :: "jstring \<Rightarrow> json" where
  "parseJson input = (case JSON_parse input of Some v \<Rightarrow> v | None \<Rightarrow> Null)"

section \<open>The converters (\<open>utils/converters.ts\<close>)\<close>

datatype js_error = Error jstring

text \<open>
  The argument \<open>json: JsonValue | string\<close>: a string is parsed, anything else is taken
  as it is (\<open>typeof json === 'string' ? parseJson(json) : json\<close>).
\<close>

definition to_obj :: "json \<Rightarrow> json" where
  "to_obj json = (case json of String s \<Rightarrow> parseJson s | _ \<Rightarrow> json)"

subsection \<open>XML\<close>

definition escapeXml :: "jstring \<Rightarrow> jstring" where
  "escapeXml str =
     replace_all (\<lambda>c. c = 39) (js ''&apos;'')
       (replace_all (\<lambda>c. c = 34) (js ''&quot;'')
         (replace_all (\<lambda>c. c = 62) (js ''&gt;'')
           (replace_all (\<lambda>c. c = 60) (js ''&lt;'')
             (replace_all (\<lambda>c. c = 38) (js ''&amp;'') str))))"

text \<open>The character class \<open>[a-zA-Z0-9_-]\<close>.\<close>

definition key_char :: "nat \<Rightarrow> bool" where
  "key_char c =
     ((97 \<le> c \<and> c \<le> 122) \<or> (65 \<le> c \<and> c \<le> 90) \<or> (48 \<le> c \<and> c \<le> 57)
      \<or> c = 95 \<or> c = 45)"

text \<open>\<open>key.replace(/[^a-zA-Z0-9_-]/g, '_')\<close>.\<close>

definition sanitize :: "jstring \<Rightarrow> jstring" where
  "sanitize key = replace_all (\<lambda>c. \<not> key_char c) (js ''_'') key"

text \<open>\<open>s.split('\n').map(line => pre + line).join('\n')\<close>.\<close>

definition indent_lines :: "jstring \<Rightarrow> jstring \<Rightarrow> jstring" where
  "indent_lines pre s = join [10] (map (\<lambda>line. pre @ line) (split_on 10 s))"

text \<open>
  \<open>convertToXml\<close>.  Its \<open>forEach\<close> loops append to \<open>xml\<close>: \<open>xml_items\<close> is the loop
  over an array, with the indentation of the \<open>item\<close> tags and of the lines between
  them (two and four spaces for an array that is \<open>data\<close>, four and six for an array
  under a key), the index and \<open>xml\<close>; \<open>xml_entries\<close> is the loop over
  \<open>Object.entries(data)\<close>.
\<close>

fun convertToXml :: "json \<Rightarrow> jstring"
  and xml_items :: "jstring \<Rightarrow> jstring \<Rightarrow> json list \<Rightarrow> nat \<Rightarrow> jstring \<Rightarrow> jstring"
  and xml_entries :: "(jstring \<times> json) list \<Rightarrow> jstring \<Rightarrow> jstring"
where
  "convertToXml (Array items) = xml_items (js ''  '') (js ''    '') items 0 []"
| "convertToXml (Object entries) = xml_entries entries []"
| "convertToXml data = escapeXml (String_js data)"
| "xml_items tag_indent pre [] index xml = xml"
| "xml_items tag_indent pre (item # rest) index xml =
     xml_items tag_indent pre rest (index + 1)
       (xml @ tag_indent @ js ''<item index='' @ [34] @ decimal index @ [34] @ js ''>'' @ [10]
            @ indent_lines pre (convertToXml item)
            @ [10] @ tag_indent @ js ''</item>'' @ [10])"
| "xml_entries [] xml = xml"
| "xml_entries ((key, value) # rest) xml =
     (let sanitizedKey = sanitize key
      in xml_entries rest
           (case value of
              Array items \<Rightarrow>
                xml_items (js ''    '') (js ''      '') items 0
                  (xml @ js ''  <'' @ sanitizedKey @ js ''>'' @ [10])
                @ js ''  </'' @ sanitizedKey @ js ''>'' @ [10]
            | Object entries \<Rightarrow>
                xml @ js ''  <'' @ sanitizedKey @ js ''>'' @ [10]
                    @ indent_lines (js ''    '') (convertToXml value)
                    @ [10] @ js ''  </'' @ sanitizedKey @ js ''>'' @ [10]
            | _ \<Rightarrow>
                xml @ js ''  <'' @ sanitizedKey @ js ''>'' @ escapeXml (String_js value)
                    @ js ''</'' @ sanitizedKey @ js ''>'' @ [10]))"

definition jsonToXml :: "json \<Rightarrow> js_error + jstring" where
  "jsonToXml json =
     (let obj = to_obj json
      in if falsy obj then Inl (Error (js ''Invalid JSON input''))
         else Inr (js ''<?xml version='' @ [34] @ js ''1.0'' @ [34] @ js '' encoding=''
                   @ [34] @ js ''UTF-8'' @ [34] @ js ''?>'' @ [10] @ js ''<root>'' @ [10]
                   @ convertToXml obj @ js ''</root>''))"

subsection \<open>CSV\<close>

definition escapeCsv :: "jstring \<Rightarrow> jstring" where
  "escapeCsv str =
     (if str_includes str 44 \<or> str_includes str 34 \<or> str_includes str 10
      then [34] @ replace_all (\<lambda>c. c = 34) [34, 34] str @ [34]
      else str)"

text \<open>
  \<open>item[key]\<close> reads a property through the prototype chain.  An object that
  \<open>JSON.parse\<close> or an object literal made inherits from \<open>Object.prototype\<close>: where
  it has no own property \<open>key\<close>, the read gives the member of \<open>Object.prototype\<close> of
  that name if there is one, a built-in function or, for \<open>__proto__\<close>,
  \<open>Object.prototype\<close> itself, and \<open>undefined\<close> otherwise.
\<close>

datatype property = Undefined | Value json | ObjectPrototype | BuiltinFunction jstring

text \<open>The function-valued members of \<open>Object.prototype\<close>, each with the function's name.\<close>

definition prototype_functions :: "(jstring \<times> jstring) list" where
  "prototype_functions =
     [(js ''constructor'', js ''Object''),
      (js ''__defineGetter__'', js ''__defineGetter__''),
      (js ''__defineSetter__'', js ''__defineSetter__''),
      (js ''hasOwnProperty'', js ''hasOwnProperty''),
      (js ''__lookupGetter__'', js ''__lookupGetter__''),
      (js ''__lookupSetter__'', js ''__lookupSetter__''),
      (js ''isPrototypeOf'', js ''isPrototypeOf''),
      (js ''propertyIsEnumerable'', js ''propertyIsEnumerable''),
      (js ''toString'', js ''toString''),
      (js ''valueOf'', js ''valueOf''),
      (js ''toLocaleString'', js ''toLocaleString'')]"

definition get_property :: "(jstring \<times> json) list \<Rightarrow> jstring \<Rightarrow> property" where
  "get_property obj key =
     (case map_of obj key of
        Some v \<Rightarrow> Value v
      | None \<Rightarrow>
          if key = js ''__proto__'' then ObjectPrototype
          else (case map_of prototype_functions key of
                  Some name \<Rightarrow> BuiltinFunction name
                | None \<Rightarrow> Undefined))"

text \<open>
  The body of \<open>key => { const value = item[key]; ... }\<close>.  \<open>Object.prototype\<close> has
  no enumerable property, so \<open>JSON.stringify\<close> writes it \<open>{}\<close>; a built-in function
  is not an object to \<open>typeof\<close>, and \<open>String\<close> gives its source text.
\<close>

fun csv_field :: "property \<Rightarrow> jstring" where
  "csv_field Undefined = []"
| "csv_field (Value Null) = []"
| "csv_field (Value (Array xs)) = escapeCsv (serialize [] [] (Array xs))"
| "csv_field (Value (Object kvs)) = escapeCsv (serialize [] [] (Object kvs))"
| "csv_field (Value v) = escapeCsv (String_js v)"
| "csv_field ObjectPrototype = escapeCsv (js ''{}'')"
| "csv_field (BuiltinFunction name) =
     escapeCsv (js ''function '' @ name @ js ''() { [native code] }'')"

text \<open>\<open>Array.from(new Set(xs))\<close>: the elements of \<open>xs\<close>, each at its first place.\<close>

definition unique :: "jstring list \<Rightarrow> jstring list" where
  "unique xs = foldl (\<lambda>seen x. if x \<in> set seen then seen else seen @ [x]) [] xs"

text \<open>\<open>Object.keys(item)\<close> for a plain object, no key for anything else.\<close>

fun item_keys :: "json \<Rightarrow> jstring list" where
  "item_keys (Object kvs) = map fst kvs"
| "item_keys item = []"

fun csv_row :: "jstring list \<Rightarrow> json \<Rightarrow> jstring" where
  "csv_row keys (Object kvs) =
     join (js '','') (map (\<lambda>key. csv_field (get_property kvs key)) keys)"
| "csv_row keys item = join (js '','') (map (\<lambda>key. []) keys)"

definition jsonToCsv :: "json \<Rightarrow> js_error + jstring" where
  "jsonToCsv json =
     (let obj = to_obj json
      in if falsy obj then Inl (Error (js ''Invalid JSON input''))
         else
           (case obj of
              Array items \<Rightarrow>
                if length items = 0 then Inr []
                else
                  (let keys = unique (concat (map item_keys items));
                       header = join (js '','') (map escapeCsv keys);
                       rows = map (csv_row keys) items
                   in Inr (join [10] (header # rows)))
            | Object kvs \<Rightarrow>
                (let keys = map fst kvs;
                     header = join (js '','') (map escapeCsv keys);
                     values = join (js '','')
                                (map (\<lambda>key. csv_field (get_property kvs key)) keys)
                 in Inr (header @ [10] @ values))
            | _ \<Rightarrow>
                Inl (Error (js ''JSON must be an object or array for CSV conversion''))))"

subsection \<open>YAML\<close>

fun formatYamlValue :: "json \<Rightarrow> jstring" where
  "formatYamlValue Null = js ''null''"
| "formatYamlValue (Bool b) = (if b then js ''true'' else js ''false'')"
| "formatYamlValue (Number n) = String_js (Number n)"
| "formatYamlValue (String v) =
     (if str_includes v 58 \<or> str_includes v 35 \<or> str_includes v 10
      then [34] @ replace_all (\<lambda>c. c = 34) [92, 34] v @ [34]
      else v)"
| "formatYamlValue v = String_js v"

text \<open>\<open>typeof item === 'object' && item !== null\<close>.\<close>

fun is_object :: "json \<Rightarrow> bool" where
  "is_object (Array xs) = True"
| "is_object (Object kvs) = True"
| "is_object v = False"

text \<open>
  \<open>convertToYaml\<close>, its loops as for \<open>convertToXml\<close>: \<open>yaml_items\<close> over an array
  and \<open>yaml_entries\<close> over \<open>Object.entries(data)\<close>, each with the indentation level
  and \<open>yaml\<close>.
\<close>

fun convertToYaml :: "json \<Rightarrow> nat \<Rightarrow> jstring"
  and yaml_items :: "json list \<Rightarrow> nat \<Rightarrow> jstring \<Rightarrow> jstring"
  and yaml_entries :: "(jstring \<times> json) list \<Rightarrow> nat \<Rightarrow> jstring \<Rightarrow> jstring"
where
  "convertToYaml (Array items) indent = yaml_items items indent []"
| "convertToYaml (Object entries) indent = yaml_entries entries indent []"
| "convertToYaml data indent = repeat (js ''  '') indent @ formatYamlValue data @ [10]"
| "yaml_items [] indent yaml = yaml"
| "yaml_items (item # rest) indent yaml =
     (let spaces = repeat (js ''  '') indent
      in yaml_items rest indent
           (if is_object item then
              yaml @ spaces @ js ''-'' @ [10] @ convertToYaml item (indent + 1)
            else yaml @ spaces @ js ''- '' @ formatYamlValue item @ [10]))"
| "yaml_entries [] indent yaml = yaml"
| "yaml_entries ((key, value) # rest) indent yaml =
     (let spaces = repeat (js ''  '') indent
      in yaml_entries rest indent
           (case value of
              Array items \<Rightarrow>
                yaml @ spaces @ key @ js '':'' @ [10] @ convertToYaml value (indent + 1)
            | Object entries \<Rightarrow>
                yaml @ spaces @ key @ js '':'' @ [10] @ convertToYaml value (indent + 1)
            | _ \<Rightarrow> yaml @ spaces @ key @ js '': '' @ formatYamlValue value @ [10]))"

definition jsonToYaml :: "json \<Rightarrow> js_error + jstring" where
  "jsonToYaml json =
     (let obj = to_obj json
      in if falsy obj then Inl (Error (js ''Invalid JSON input''))
         else Inr (convertToYaml obj 0))"

section \<open>Evaluation of the parser on a given text\<close>

lemmas tokenize_eval = js_def tokenize.simps lex_string.simps lex_escape_def unescape_def
  hex_value_def is_digit_def

lemmas parse_eval = parse_value.simps parse_elements.simps parse_members.simps
  build_object_def obj_put_def array_index_def

section \<open>Lines and columns\<close>

lemma split_on_not_Nil [simp]: "split_on c s \<noteq> []"
  by (induction s) (auto split: list.splits)

lemma length_split_on: "length (split_on c s) = count_list s c + 1"
  by (induction s) (auto split: list.splits)

lemma last_split_on: "last (split_on c s) = rev (takeWhile (\<lambda>x. x \<noteq> c) (rev s))"
proof (induction s)
  case Nil
  then show ?case by simp
next
  case (Cons x s)
  show ?case
  proof (cases "x = c")
    case True
    then show ?thesis
      using Cons by (simp add: takeWhile_append)
  next
    case False
    obtain l ls where sp: "split_on c s = l # ls"
      by (cases "split_on c s") auto
    show ?thesis
    proof (cases ls)
      case Nil
      with sp Cons have l: "l = rev (takeWhile (\<lambda>x. x \<noteq> c) (rev s))" by simp
      from Nil sp have "count_list s c = 0"
        using length_split_on[of c s] by simp
      then have "c \<notin> set s" by (simp add: count_list_0_iff)
      then have all: "takeWhile (\<lambda>x. x \<noteq> c) (rev s) = rev s"
        by (auto intro: takeWhile_eq_all_conv[THEN iffD2])
      with l have "l = s" by simp
      with False Nil sp all show ?thesis
        by (simp add: takeWhile_append)
    next
      case (Cons a list)
      from Cons sp have "1 < length (split_on c s)" by simp
      then have "0 < count_list s c" using length_split_on[of c s] by simp
      then have "c \<in> set s" by (metis count_list_0_iff less_numeral_extra(3))
      then have "\<exists>y\<in>set (rev s). \<not> y \<noteq> c" by auto
      then have "takeWhile (\<lambda>x. x \<noteq> c) (rev s @ [x]) = takeWhile (\<lambda>x. x \<noteq> c) (rev s)"
        by (simp add: takeWhile_append1)
      with False sp Cons \<open>last (split_on c s) = _\<close> show ?thesis by simp
    qed
  qed
qed


text \<open>
  \<open>s.lastIndexOf('\n')\<close>: the index of the last newline of \<open>s\<close>, \<open>-1\<close> when it has none.
\<close>

definition last_newline_index :: "jstring \<Rightarrow> int" where
  "last_newline_index s =
     (if 10 \<in> set s then int (length s) - 1 - int (length (takeWhile (\<lambda>c. c \<noteq> 10) (rev s)))
      else - 1)"

lemma column_offset:
  "int (length (takeWhile (\<lambda>c. c \<noteq> 10) (rev s))) + 1 = int (length s) - last_newline_index s"
proof (cases "10 \<in> set s")
  case True
  then show ?thesis by (simp add: last_newline_index_def)
next
  case False
  then have "takeWhile (\<lambda>c. c \<noteq> 10) (rev s) = rev s"
    by (auto intro: takeWhile_eq_all_conv[THEN iffD2])
  then have "length (takeWhile (\<lambda>c. c \<noteq> 10) (rev s)) = length s"
    by (metis length_rev)
  with False show ?thesis by (simp add: last_newline_index_def)
qed

text \<open>
  Claim C3.  When \<open>JSON.parse\<close> rejects the input with a \<open>SyntaxError\<close> whose message
  carries a character offset (\<open>position N\<close>), \<open>validateJson\<close> returns invalid with the
  message, the line is the number of newlines in the input before the offset plus one,
  and the column is the number of characters behind the last of these newlines plus
  one; for an offset within the input that is the offset minus the index of the last
  newline before it (\<open>-1\<close> when there is none).  The input is not blank: a blank input
  is never given to the parser.
\<close>

theorem validateJson_line_column:
  assumes "trim input \<noteq> []"
    and "JSON_parse input = None"
    and "thrown_on input = SyntaxError message"
    and "match_position message = Some digits"
    and "prefix = take (digits_value digits) input"
  shows "validateJson thrown_on input =
           \<lparr>valid = False, error = Some message,
            line = Some (count_list prefix 10 + 1),
            column = Some (length (takeWhile (\<lambda>c. c \<noteq> 10) (rev prefix)) + 1)\<rparr>
         \<and> (digits_value digits \<le> length input \<longrightarrow>
              int (length (takeWhile (\<lambda>c. c \<noteq> 10) (rev prefix)) + 1)
                = int (digits_value digits) - last_newline_index prefix)"
proof -
  have "digits_value digits \<le> length input \<Longrightarrow> length prefix = digits_value digits"
    using assms(5) by simp
  then have "digits_value digits \<le> length input \<longrightarrow>
      int (length (takeWhile (\<lambda>c. c \<noteq> 10) (rev prefix)) + 1)
        = int (digits_value digits) - last_newline_index prefix"
    using column_offset[of prefix] by auto
  moreover have "validateJson thrown_on input =
           \<lparr>valid = False, error = Some message,
            line = Some (count_list prefix 10 + 1),
            column = Some (length (takeWhile (\<lambda>c. c \<noteq> 10) (rev prefix)) + 1)\<rparr>"
    using assms by (simp add: validateJson_def Let_def length_split_on last_split_on)
  ultimately show ?thesis by blast
qed

theorem validateJson_line_column_witness:
  "validateJson (\<lambda>t. SyntaxError (js ''Unexpected token } in JSON at position 6''))
     (js ''{'' @ [10] @ js ''\"a\":}'')
   = \<lparr>valid = False, error = Some (js ''Unexpected token } in JSON at position 6''),
      line = Some 2, column = Some 5\<rparr>"
proof -
  let ?input = "js ''{'' @ [10] @ js ''\"a\":}''"
  let ?msg = "js ''Unexpected token } in JSON at position 6''"
  have t: "trim ?input \<noteq> []"
    by (simp add: trim_def is_js_space_def js_def)
  have p: "JSON_parse ?input = None"
    by (simp add: JSON_parse_def tokenize_eval parse_eval)
  have m: "match_position ?msg = Some (js ''6'')"
    by (simp add: js_def is_digit_def)
  have d: "digits_value (js ''6'') = 6"
    by (simp add: digits_value_def js_def)
  have pre: "take 6 ?input = js ''{'' @ [10] @ js ''\"a\":''"
    by (simp add: js_def)
  show ?thesis
    using validateJson_line_column[of ?input "\<lambda>t. SyntaxError ?msg" ?msg "js ''6''",
        OF t p refl m refl]
    by (simp add: d pre) (simp add: js_def)
qed




section \<open>Binary64 rounding\<close>

lemma floorlog_pos: "0 < n \<Longrightarrow> 0 < floorlog 2 n"
  by (simp add: compute_floorlog)

lemma ilog2_bounds:
  assumes "0 < x"
  shows "2 powi ilog2 x \<le> x \<and> x < 2 powi (ilog2 x + 1)"
proof (cases "1 \<le> x")
  case True
  define n where "n = nat \<lfloor>x\<rfloor>"
  define fl where "fl = floorlog 2 n"
  have n: "0 < n" "of_nat n \<le> x" "x < of_nat n + 1"
    using True by (auto simp: n_def le_nat_iff intro: floor_less_cancel)
  have b: "2 ^ (fl - 1) \<le> n" "n < 2 ^ fl"
    using floorlog_bounds[of n 2] n(1) by (auto simp: fl_def)
  have flp: "0 < fl" using floorlog_pos[OF n(1)] by (simp add: fl_def)
  have i: "ilog2 x = int fl - 1" using True by (simp add: ilog2_def n_def fl_def)
  have "ilog2 x = int (fl - 1)" using i flp by simp
  then have lo: "2 powi ilog2 x = (2::rat) ^ (fl - 1)" by simp
  have hi: "2 powi (ilog2 x + 1) = (2::rat) ^ fl" using i by simp
  have "(2::rat) ^ (fl - 1) \<le> of_nat n"
    using b(1) by (metis of_nat_le_iff of_nat_numeral of_nat_power)
  moreover have "of_nat n + 1 \<le> (2::rat) ^ fl"
  proof -
    have "n + 1 \<le> 2 ^ fl" using b(2) by simp
    then have "(of_nat (n + 1) :: rat) \<le> of_nat (2 ^ fl)" by (simp only: of_nat_le_iff)
    then show ?thesis by simp
  qed
  ultimately have "(2::rat) ^ (fl - 1) \<le> x" "x < (2::rat) ^ fl"
    using n(2,3) by linarith+
  then show ?thesis by (simp only: lo hi)
next
  case False
  define c where "c = \<lceil>1 / x\<rceil>"
  define m where "m = nat (c - 1)"
  define fl where "fl = floorlog 2 m"
  have ix: "1 < 1 / x" using False assms by simp
  have c: "1 / x \<le> of_int c" "of_int c - 1 < 1 / x"
    by (auto simp: c_def) linarith
  have c2: "2 \<le> c" using ix c(1) by linarith
  have m: "0 < m" "int m = c - 1" using c2 by (auto simp: m_def)
  have b: "2 ^ (fl - 1) \<le> m" "m < 2 ^ fl"
    using floorlog_bounds[of m 2] m(1) by (auto simp: fl_def)
  have flp: "0 < fl" using floorlog_pos[OF m(1)] by (simp add: fl_def)
  have i: "ilog2 x = - int fl" using False by (simp add: ilog2_def c_def m_def fl_def)
  have "int m < int (2 ^ fl)" using b(2) by (simp only: of_nat_less_iff)
  then have "c \<le> 2 ^ fl" using m(2) by simp
  then have "(of_int c :: rat) \<le> of_int (2 ^ fl)" by (simp only: of_int_le_iff)
  then have "(of_int c :: rat) \<le> 2 ^ fl" by simp
  then have u: "1 / x \<le> 2 ^ fl" using c(1) by linarith
  have "int (2 ^ (fl - 1)) \<le> int m" using b(1) by (simp only: of_nat_le_iff)
  then have "2 ^ (fl - 1) \<le> c - 1" using m(2) by simp
  then have "(of_int (2 ^ (fl - 1)) :: rat) \<le> of_int (c - 1)" by (simp only: of_int_le_iff)
  then have "(2::rat) ^ (fl - 1) \<le> of_int c - 1" by simp
  then have l: "(2::rat) ^ (fl - 1) < 1 / x" using c(2) by linarith
  have "2 powi ilog2 x = 1 / (2::rat) ^ fl" using i by (simp add: power_int_minus_divide)
  moreover have "1 / (2::rat) ^ fl \<le> x"
    using u assms by (simp add: field_simps)
  moreover have "2 powi (ilog2 x + 1) = 1 / (2::rat) ^ (fl - 1)"
  proof -
    have "ilog2 x + 1 = - int (fl - 1)" using i flp by simp
    then show ?thesis by (simp add: power_int_minus_divide)
  qed
  moreover have "x < 1 / (2::rat) ^ (fl - 1)"
    using l assms by (simp add: field_simps)
  ultimately show ?thesis by simp
qed

lemma pow2_pos [simp]: "0 < (2::rat) powi e"
  by (simp add: power_int_def)

lemma ilog2_unique:
  assumes "2 powi e \<le> x" "x < 2 powi (e + 1)"
  shows "ilog2 x = e"
proof -
  have xp: "0 < x" using assms(1) pow2_pos[of e] by linarith
  from ilog2_bounds[OF xp] have b: "2 powi ilog2 x \<le> x" "x < 2 powi (ilog2 x + 1)" by auto
  have "(2::rat) powi e < 2 powi (ilog2 x + 1)" using assms(1) b(2) by linarith
  then have "e < ilog2 x + 1"
    using power_int_increasing[of "ilog2 x + 1" e "2::rat"] by (cases "e < ilog2 x + 1") auto
  moreover have "(2::rat) powi ilog2 x < 2 powi (e + 1)" using assms(2) b(1) by linarith
  then have "ilog2 x < e + 1"
    using power_int_increasing[of "e + 1" "ilog2 x" "2::rat"] by (cases "ilog2 x < e + 1") auto
  ultimately show ?thesis by simp
qed


lemma rhe_int [simp]: "round_half_even (of_int a) = a"
  by (simp add: round_half_even_def)

lemma rhe_ge: "of_int a \<le> t \<Longrightarrow> a \<le> round_half_even t"
proof -
  assume "of_int a \<le> t"
  then have "a \<le> \<lfloor>t\<rfloor>" by (simp add: le_floor_iff)
  then show ?thesis by (auto simp: round_half_even_def Let_def)
qed

lemma rhe_le: "t \<le> of_int b \<Longrightarrow> round_half_even t \<le> b"
proof -
  assume a: "t \<le> of_int b"
  then have f: "\<lfloor>t\<rfloor> \<le> b" by (simp add: floor_le_iff)
  show ?thesis
  proof (cases "\<lfloor>t\<rfloor> = b")
    case True
    then have "t = of_int b" using a by (metis of_int_floor_le order_antisym)
    then show ?thesis by simp
  next
    case False
    with f have "\<lfloor>t\<rfloor> + 1 \<le> b" by simp
    then show ?thesis by (auto simp: round_half_even_def Let_def)
  qed
qed

lemma rhe_lt_half: "t < of_int b - 1 / 2 \<Longrightarrow> round_half_even t \<le> b - 1"
proof -
  assume a: "t < of_int b - 1 / 2"
  then have "t < of_int b" by linarith
  then have f: "\<lfloor>t\<rfloor> \<le> b - 1" by (simp add: floor_less_iff)
  show ?thesis
  proof (cases "\<lfloor>t\<rfloor> = b - 1")
    case True
    then have "t - of_int \<lfloor>t\<rfloor> < 1 / 2" using a by simp
    then show ?thesis using True by (simp add: round_half_even_def Let_def)
  next
    case False
    with f have "\<lfloor>t\<rfloor> + 1 \<le> b - 1" by simp
    then show ?thesis by (auto simp: round_half_even_def Let_def)
  qed
qed

text \<open>A value that has 53 significant bits at its exponent is rounded to itself.\<close>

lemma round_pos_exact:
  assumes "0 < x" and "x < 2 ^ 1024 - 2 ^ 970"
    and "x = of_int r * 2 powi (max (ilog2 x) (- 1022) - 52)"
  shows "round_pos x = Finite x"
proof -
  define q where "q = (2::rat) powi (max (ilog2 x) (- 1022) - 52)"
  have qp: "0 < q" by (simp add: q_def)
  have xq: "x = of_int r * q" using assms(3) by (simp only: q_def)
  then have "x / q = of_int r"
    using qp by (metis less_irrefl nonzero_mult_div_cancel_right)
  then have "of_int (round_half_even (x / q)) * q = x"
    using xq by simp
  then show ?thesis
    using assms(2) by (simp add: round_pos_def Let_def q_def)
qed

lemma round_pos_grid:
  assumes "0 < r" and "r < 2 ^ 53" and "- 1074 \<le> e" and "e \<le> 971"
    and "2 ^ 52 \<le> r \<or> e = - 1074"
  shows "round_pos (of_int r * 2 powi e) = Finite (of_int r * 2 powi e)"
proof -
  define x where "x = (of_int r :: rat) * 2 powi e"
  have xp: "0 < x" using assms(1) by (simp add: x_def)
  have r53: "(of_int r :: rat) \<le> 2 ^ 53 - 1"
  proof -
    have "r \<le> 2 ^ 53 - 1" using assms(2) by simp
    then have "(of_int r :: rat) \<le> of_int (2 ^ 53 - 1)" by (simp only: of_int_le_iff)
    then show ?thesis by simp
  qed
  have e971: "(2::rat) powi e \<le> 2 powi 971"
    using assms(4) by (intro power_int_increasing) auto
  have "x \<le> (2 ^ 53 - 1) * 2 powi e"
    using r53 by (simp add: x_def mult_right_mono)
  also have "\<dots> \<le> (2 ^ 53 - 1) * 2 powi 971"
    using e971 by (intro mult_left_mono) auto
  also have "\<dots> < 2 ^ 1024 - 2 ^ 970" by simp
  finally have big: "x < 2 ^ 1024 - 2 ^ 970" .
  have ex: "max (ilog2 x) (- 1022) - 52 = e"
  proof (cases "2 ^ 52 \<le> r")
    case True
    then have "(of_int (2 ^ 52) :: rat) \<le> of_int r" by (simp only: of_int_le_iff)
    then have lo: "(2::rat) ^ 52 \<le> of_int r" by simp
    have "(2::rat) powi (52 + e) = 2 ^ 52 * 2 powi e"
      by (simp add: power_int_add)
    also have "\<dots> \<le> x" using lo by (simp add: x_def mult_right_mono)
    finally have l: "2 powi (52 + e) \<le> x" .
    have "(of_int r :: rat) < 2 ^ 53" using r53 by linarith
    then have "x < 2 ^ 53 * 2 powi e" by (simp add: x_def mult_strict_right_mono)
    also have "\<dots> = 2 powi (52 + e + 1)"
      by (simp add: power_int_add)
    finally have u: "x < 2 powi (52 + e + 1)" .
    from ilog2_unique[OF l u] assms(3) show ?thesis by simp
  next
    case False
    with assms(5) have e: "e = - 1074" by simp
    from False have "r \<le> 2 ^ 52 - 1" by simp
    then have "(of_int r :: rat) \<le> of_int (2 ^ 52 - 1)" by (simp only: of_int_le_iff)
    then have "(of_int r :: rat) < 2 ^ 52" by simp
    then have "x < 2 ^ 52 * 2 powi (- 1074)"
      by (simp add: x_def e mult_strict_right_mono)
    also have "\<dots> = 2 powi 52 * 2 powi (- 1074)" by simp
    also have "\<dots> = 2 powi (52 + (- 1074))"
      by (subst power_int_add) auto
    also have "\<dots> = 2 powi (- 1022)" by simp
    finally have "x < 2 powi (- 1022)" .
    with ilog2_bounds[OF xp] have "(2::rat) powi ilog2 x < 2 powi (- 1022)" by linarith
    then have "ilog2 x < - 1022"
      using power_int_increasing[of "- 1022" "ilog2 x" "2::rat"]
      by (cases "ilog2 x < - 1022") auto
    then show ?thesis using e by simp
  qed
  have "x = of_int r * 2 powi (max (ilog2 x) (- 1022) - 52)"
    by (simp only: ex) (simp only: x_def)
  with xp big have "round_pos x = Finite x"
    by (rule round_pos_exact)
  then show ?thesis by (simp only: x_def)
qed


lemma pow2_less_imp: "(2::rat) powi a < 2 powi b \<Longrightarrow> a < b"
  using power_int_increasing[of b a "2::rat"] by (cases "a < b") auto

lemma round_pos_int:
  assumes "0 < n" and "n < 2 ^ 53"
  shows "round_pos (of_int n) = Finite (of_int n)"
proof -
  define x where "x = (of_int n :: rat)"
  define e where "e = ilog2 x"
  have x1: "1 \<le> x" using assms(1) by (simp add: x_def)
  then have xp: "0 < x" by simp
  note b = ilog2_bounds[OF xp, folded e_def]
  have "(2::rat) powi 0 < 2 powi (e + 1)" using b x1 by simp
  then have e0: "0 \<le> e" using pow2_less_imp[of 0 "e + 1"] by simp
  have "n \<le> 2 ^ 53 - 1" using assms(2) by simp
  then have "(of_int n :: rat) \<le> of_int (2 ^ 53 - 1)" by (simp only: of_int_le_iff)
  then have x53: "x \<le> 2 ^ 53 - 1" by (simp add: x_def)
  then have "(2::rat) powi e < 2 powi 53" using b by simp
  then have e52: "e \<le> 52" using pow2_less_imp[of e 53] by simp
  have big: "x < 2 ^ 1024 - 2 ^ 970" using x53 by simp
  define k where "k = nat (52 - e)"
  have m: "max e (- 1022) - 52 = - int k" using e0 e52 by (simp add: k_def)
  have "x = of_int (n * 2 ^ k) * 2 powi (max (ilog2 x) (- 1022) - 52)"
    unfolding e_def[symmetric] m
    by (simp add: x_def power_int_minus_divide)
  with xp big have "round_pos x = Finite x" by (rule round_pos_exact)
  then show ?thesis by (simp only: x_def)
qed

lemma to_double_nat:
  assumes "n < 2 ^ 53"
  shows "to_double (of_nat n) = Finite (of_nat n)"
proof (cases "n = 0")
  case True
  then show ?thesis by (simp add: to_double_def)
next
  case False
  have "int n < 2 ^ 53" using assms by (metis of_nat_less_iff of_nat_numeral of_nat_power)
  with False have "round_pos (of_int (int n)) = Finite (of_int (int n))"
    by (intro round_pos_int) auto
  with False show ?thesis by (simp add: to_double_def)
qed

lemma ilog10_digit:
  assumes "0 < d" and "d < 10"
  shows "ilog10 (of_nat d) = 1"
proof -
  have "floorlog 10 d = 1" using assms by (simp add: compute_floorlog)
  moreover have "(1::rat) \<le> of_nat d" using assms(1) by simp
  ultimately show ?thesis by (simp add: ilog10_def)
qed

lemma shortest_digits_digit:
  assumes "0 < d" and "d < 10"
  shows "shortest_digits (of_nat d) = (int d, 1, 1)"
proof -
  have lo: "to_double (of_nat d) = Finite (of_nat d)"
    using assms(2) by (intro to_double_nat) simp
  have "to_double (of_nat (d + 1)) = Finite (of_nat (d + 1))"
    using assms(2) by (intro to_double_nat) simp
  then have hi: "to_double (of_nat d + 1) \<noteq> Finite (of_nat d)" by (simp add: add.commute)
  have ne: "int d \<noteq> 10" using assms(2) by simp
  have "digit_candidate (of_nat d) 1 1 = Some (int d, 1)"
    using lo hi ne by (simp add: digit_candidate_def Let_def)
  then show ?thesis
    using assms by (simp add: shortest_digits_def ilog10_digit shortest_digits_from.simps)
qed

lemma Number_toString_digit:
  assumes "0 < d" and "d < 10"
  shows "Number_toString (Finite (of_nat d)) = [48 + d]"
  using assms
  by (simp add: pos_toString_def shortest_digits_digit format_digits_def decimal.simps)

lemma Number_toString_1: "Number_toString (Finite 1) = js ''1''"
  using Number_toString_digit[of 1] by (simp add: js_def)

lemma Number_toString_2: "Number_toString (Finite 2) = js ''2''"
  using Number_toString_digit[of 2] by (simp add: js_def)

lemma Number_toString_3: "Number_toString (Finite 3) = js ''3''"
  using Number_toString_digit[of 3] by (simp add: js_def)

section \<open>The CSV converter\<close>

lemma to_obj_simps [simp]:
  "to_obj Null = Null" "to_obj (Bool b) = Bool b" "to_obj (Number n) = Number n"
  "to_obj (String s) = parseJson s" "to_obj (Array xs) = Array xs"
  "to_obj (Object kvs) = Object kvs"
  by (simp_all add: to_obj_def)

text \<open>
  The text of a field before it is escaped: empty for a missing or null value, the
  compact JSON text for a nested array or object, the string coercion for anything
  else.
\<close>

fun csv_raw :: "property \<Rightarrow> jstring" where
  "csv_raw Undefined = []"
| "csv_raw (Value Null) = []"
| "csv_raw (Value (Array xs)) = serialize [] [] (Array xs)"
| "csv_raw (Value (Object kvs)) = serialize [] [] (Object kvs)"
| "csv_raw (Value v) = String_js v"
| "csv_raw ObjectPrototype = js ''{}''"
| "csv_raw (BuiltinFunction name) = js ''function '' @ name @ js ''() { [native code] }''"

text \<open>The rows of a table, the header first, each row the texts of its fields.\<close>

fun csv_raw_table :: "json \<Rightarrow> jstring list list" where
  "csv_raw_table (Array items) =
     (let keys = unique (concat (map item_keys items))
      in keys # map (\<lambda>item. case item of
                                Object kvs \<Rightarrow> map (\<lambda>key. csv_raw (get_property kvs key)) keys
                              | _ \<Rightarrow> map (\<lambda>key. []) keys) items)"
| "csv_raw_table (Object kvs) =
     [map fst kvs, map (\<lambda>key. csv_raw (get_property kvs key)) (map fst kvs)]"
| "csv_raw_table v = []"

lemma escapeCsv_Nil [simp]: "escapeCsv [] = []"
  by (simp add: escapeCsv_def str_includes_def)

lemma csv_field_raw: "csv_field p = escapeCsv (csv_raw p)"
  by (induction p rule: csv_field.induct) simp_all

lemma csv_row_raw:
  "csv_row keys item =
     join (js '','')
       (map escapeCsv
          (case item of
             Object kvs \<Rightarrow> map (\<lambda>key. csv_raw (get_property kvs key)) keys
           | _ \<Rightarrow> map (\<lambda>key. []) keys))"
  by (cases item) (simp_all add: csv_field_raw comp_def)

lemma csv_rows_raw:
  "map (csv_row keys) items =
     map (\<lambda>item. join (js '','')
            (map escapeCsv
               (case item of
                  Object kvs \<Rightarrow> map (\<lambda>key. csv_raw (get_property kvs key)) keys
                | _ \<Rightarrow> map (\<lambda>key. []) keys))) items"
  by (rule map_cong[OF refl]) (rule csv_row_raw)

text \<open>
  Claim C6.  A field is wrapped in double quotes, each of its double quotes doubled, if
  it contains a comma, a double quote or a newline, and is left as it is otherwise;
  and every field of the text that \<open>jsonToCsv\<close> returns for a non-empty array or for
  an object, header and values alike, is the escaped form of the field's text.
\<close>

theorem csv_fields_quoted:
  "escapeCsv field =
     (if 44 \<in> set field \<or> 34 \<in> set field \<or> 10 \<in> set field
      then [34] @ concat (map (\<lambda>c. if c = 34 then [34, 34] else [c]) field) @ [34]
      else field)
   \<and> (obj = Array (item # items) \<or> obj = Object kvs \<longrightarrow>
        jsonToCsv obj =
          Inr (join [10] (map (\<lambda>row. join (js '','') (map escapeCsv row))
                            (csv_raw_table obj))))"
proof -
  have 1: "escapeCsv field =
     (if 44 \<in> set field \<or> 34 \<in> set field \<or> 10 \<in> set field
      then [34] @ concat (map (\<lambda>c. if c = 34 then [34, 34] else [c]) field) @ [34]
      else field)"
    by (simp add: escapeCsv_def str_includes_def replace_all_def)
  have 2: "jsonToCsv (Array (item # items)) =
          Inr (join [10] (map (\<lambda>row. join (js '','') (map escapeCsv row))
                            (csv_raw_table (Array (item # items)))))"
    by (simp add: jsonToCsv_def Let_def csv_rows_raw csv_row_raw comp_def del: csv_row.simps)
  have 3: "jsonToCsv (Object kvs) =
          Inr (join [10] (map (\<lambda>row. join (js '','') (map escapeCsv row))
                            (csv_raw_table (Object kvs))))"
    by (simp add: jsonToCsv_def Let_def csv_field_raw comp_def)
  from 1 2 3 show ?thesis by blast
qed


lemmas number_eval = lex_number_def lex_unsigned_def lex_int_def lex_digits_def lex_frac_def
  lex_exp_def digits_value_def

lemma parse_5: "JSON_parse (js ''5'') = Some (Number (Finite 5))"
  using to_double_nat[of 5]
  by (simp add: JSON_parse_def tokenize_eval parse_eval number_eval)

lemma parse_0: "JSON_parse (js ''0'') = Some (Number (Finite 0))"
  by (simp add: JSON_parse_def tokenize_eval parse_eval number_eval to_double_def)

lemma parse_null: "JSON_parse (js ''null'') = Some Null"
  by (simp add: JSON_parse_def tokenize_eval parse_eval)

lemma parse_empty_array: "JSON_parse (js ''[]'') = Some (Array [])"
  by (simp add: JSON_parse_def tokenize_eval parse_eval)

theorem csv_fields_quoted_witness:
  "escapeCsv (js ''x,y'') = [34] @ js ''x,y'' @ [34]
   \<and> jsonToCsv (Object [(js ''a'', Number (Finite 1)), (js ''b'', String (js ''x,y''))])
       = Inr (js ''a,b'' @ [10] @ js ''1,'' @ [34] @ js ''x,y'' @ [34])"
  using csv_fields_quoted[of "js ''x,y''"
      "Object [(js ''a'', Number (Finite 1)), (js ''b'', String (js ''x,y''))]" Null "[]"
      "[(js ''a'', Number (Finite 1)), (js ''b'', String (js ''x,y''))]"]
  by (simp add: js_def get_property_def Number_toString_digit[of 1, simplified]
      escapeCsv_def str_includes_def replace_all_def)

text \<open>
  Claim C10.  \<open>jsonToCsv\<close> of the empty array, given as a value or as the text
  \<open>[]\<close>, is the empty string: no header row and no data row.
\<close>

theorem csv_empty_array:
  "jsonToCsv (Array []) = Inr [] \<and> jsonToCsv (String (js ''[]'')) = Inr []"
  by (simp add: jsonToCsv_def parseJson_def parse_empty_array)

text \<open>
  Claim C9.  When the text parses to null, false, the number 0 or the empty string,
  \<open>jsonToXml\<close>, \<open>jsonToCsv\<close> and \<open>jsonToYaml\<close> all fail with \<open>Invalid JSON input\<close>,
  the error they give for a text that does not parse.
\<close>

theorem falsy_input_is_invalid:
  assumes "JSON_parse text = Some v"
    and "v = Null \<or> v = Bool False \<or> v = Number (Finite 0) \<or> v = String []"
  shows "jsonToXml (String text) = Inl (Error (js ''Invalid JSON input''))
       \<and> jsonToCsv (String text) = Inl (Error (js ''Invalid JSON input''))
       \<and> jsonToYaml (String text) = Inl (Error (js ''Invalid JSON input''))
       \<and> (JSON_parse rejected = None \<longrightarrow>
            jsonToXml (String rejected) = Inl (Error (js ''Invalid JSON input''))
          \<and> jsonToCsv (String rejected) = Inl (Error (js ''Invalid JSON input''))
          \<and> jsonToYaml (String rejected) = Inl (Error (js ''Invalid JSON input'')))"
  using assms
  by (auto simp: jsonToXml_def jsonToCsv_def jsonToYaml_def parseJson_def)

theorem falsy_input_is_invalid_witness:
  "jsonToXml (String (js ''0'')) = Inl (Error (js ''Invalid JSON input''))
   \<and> jsonToCsv (String (js ''0'')) = Inl (Error (js ''Invalid JSON input''))
   \<and> jsonToYaml (String (js ''0'')) = Inl (Error (js ''Invalid JSON input''))
   \<and> jsonToCsv (String (js ''[1,'')) = Inl (Error (js ''Invalid JSON input''))"
proof -
  have r: "JSON_parse (js ''[1,'') = None"
    by (simp add: JSON_parse_def tokenize_eval parse_eval number_eval)
  from falsy_input_is_invalid[OF parse_0, of "js ''[1,''"] r show ?thesis by simp
qed

text \<open>
  Claim C2, as the code has it.  For a text that parses to \<open>true\<close>, to a number other
  than 0 or to a non-empty string, \<open>jsonToCsv\<close> fails with \<open>JSON must be an object or
  array for CSV conversion\<close>; for one that parses to null, false, 0 or the empty string
  it fails with \<open>Invalid JSON input\<close>.  The claim as stated fails at the text
  \<open>null\<close>.
\<close>

theorem csv_scalar_rejected:
  assumes "JSON_parse text = Some v"
  shows "(v = Bool True \<or> (\<exists>n. v = Number n \<and> n \<noteq> Finite 0 \<and> n \<noteq> NaN)
            \<or> (\<exists>s. v = String s \<and> s \<noteq> []) \<longrightarrow>
          jsonToCsv (String text)
            = Inl (Error (js ''JSON must be an object or array for CSV conversion'')))
       \<and> (v = Null \<or> v = Bool False \<or> v = Number (Finite 0) \<or> v = String [] \<longrightarrow>
          jsonToCsv (String text) = Inl (Error (js ''Invalid JSON input'')))"
  using assms
  by (auto simp: jsonToCsv_def parseJson_def)

theorem csv_scalar_rejected_witness:
  "jsonToCsv (String (js ''5''))
     = Inl (Error (js ''JSON must be an object or array for CSV conversion''))"
  using csv_scalar_rejected[OF parse_5] by simp

theorem csv_scalar_rejected_counterexample:
  "JSON_parse (js ''null'') = Some Null
   \<and> jsonToCsv (String (js ''null'')) = Inl (Error (js ''Invalid JSON input''))
   \<and> jsonToCsv (String (js ''null''))
       \<noteq> Inl (Error (js ''JSON must be an object or array for CSV conversion''))"
  by (simp add: parse_null jsonToCsv_def parseJson_def) (simp add: js_def)

section \<open>The XML converter\<close>










section \<open>The YAML converter\<close>

lemma repeat_spaces: "repeat (js ''  '') indent = replicate (2 * indent) 32"
  by (induction indent) (simp_all add: repeat_def js_def)

lemma yaml_items_concat:
  "yaml_items items indent yaml =
     yaml @ concat (map (\<lambda>item.
               if is_object item then
                 replicate (2 * indent) 32 @ js ''-'' @ [10] @ convertToYaml item (indent + 1)
               else replicate (2 * indent) 32 @ js ''- '' @ formatYamlValue item @ [10]) items)"
  by (induction items arbitrary: yaml) (simp_all add: repeat_spaces Let_def)

lemma yaml_entries_concat:
  "yaml_entries entries indent yaml =
     yaml @ concat (map (\<lambda>kv.
               if is_object (snd kv) then
                 replicate (2 * indent) 32 @ fst kv @ js '':'' @ [10]
                 @ convertToYaml (snd kv) (indent + 1)
               else replicate (2 * indent) 32 @ fst kv @ js '': ''
                    @ formatYamlValue (snd kv) @ [10]) entries)"
proof (induction entries arbitrary: yaml)
  case Nil
  then show ?case by simp
next
  case (Cons kv entries)
  obtain key v where kv: "kv = (key, v)" by (cases kv)
  show ?case
    unfolding kv by (cases v) (simp_all add: Cons repeat_spaces Let_def)
qed

lemma convertToYaml_Array:
  "convertToYaml (Array items) indent =
     concat (map (\<lambda>item.
       if is_object item then
         replicate (2 * indent) 32 @ js ''-'' @ [10] @ convertToYaml item (indent + 1)
       else replicate (2 * indent) 32 @ js ''- '' @ formatYamlValue item @ [10]) items)"
  by (simp add: yaml_items_concat)

lemma convertToYaml_Object:
  "convertToYaml (Object entries) indent =
     concat (map (\<lambda>kv.
       if is_object (snd kv) then
         replicate (2 * indent) 32 @ fst kv @ js '':'' @ [10]
         @ convertToYaml (snd kv) (indent + 1)
       else replicate (2 * indent) 32 @ fst kv @ js '': ''
            @ formatYamlValue (snd kv) @ [10]) entries)"
  by (simp add: yaml_entries_concat)

lemma yaml_example:
  "jsonToYaml (Object [(js ''a'', Array [Number (Finite 1), Number (Finite 2)]),
                       (js ''b'', Object [(js ''c'', Number (Finite 3))])])
     = Inr (js ''a:'' @ [10] @ js ''  - 1'' @ [10] @ js ''  - 2'' @ [10]
            @ js ''b:'' @ [10] @ js ''  c: 3'' @ [10])"
  by (simp add: jsonToYaml_def to_obj_def convertToYaml_Object convertToYaml_Array
      Number_toString_digit[of 1, simplified] Number_toString_digit[of 2, simplified]
      Number_toString_digit[of 3, simplified] js_def numeral_2_eq_2
      del: convertToYaml.simps)

text \<open>
  Claim C8.  In the YAML of an array a scalar element is the line \<open>- scalar\<close>, any
  other element \<open>-\<close> on a line followed by its block one level deeper; in the YAML of
  an object a key with an object or array is \<open>key:\<close> on a line followed by the block
  one level deeper, a key with a scalar is \<open>key: scalar\<close>.  A level is two spaces.
  The object \<open>{a: [1, 2], b: {c: 3}}\<close> gives the lines \<open>a:\<close>, \<open>- 1\<close> and \<open>- 2\<close>
  indented by two spaces, \<open>b:\<close>, and \<open>c: 3\<close> indented by two spaces.
\<close>

theorem yaml_block_layout:
  "convertToYaml (Array items) indent =
     concat (map (\<lambda>item.
       if is_object item then
         replicate (2 * indent) 32 @ js ''-'' @ [10] @ convertToYaml item (indent + 1)
       else replicate (2 * indent) 32 @ js ''- '' @ formatYamlValue item @ [10]) items)
   \<and> convertToYaml (Object entries) indent =
     concat (map (\<lambda>kv.
       if is_object (snd kv) then
         replicate (2 * indent) 32 @ fst kv @ js '':'' @ [10]
         @ convertToYaml (snd kv) (indent + 1)
       else replicate (2 * indent) 32 @ fst kv @ js '': ''
            @ formatYamlValue (snd kv) @ [10]) entries)
   \<and> jsonToYaml (Object [(js ''a'', Array [Number (Finite 1), Number (Finite 2)]),
                         (js ''b'', Object [(js ''c'', Number (Finite 3))])])
     = Inr (js ''a:'' @ [10] @ js ''  - 1'' @ [10] @ js ''  - 2'' @ [10]
            @ js ''b:'' @ [10] @ js ''  c: 3'' @ [10])"
  using convertToYaml_Array convertToYaml_Object yaml_example by blast


section \<open>Rows of an array in CSV\<close>

lemma unique_foldl:
  "foldl (\<lambda>seen x. if x \<in> set seen then seen else seen @ [x]) acc xs
     = acc @ filter (\<lambda>x. x \<notin> set acc) (rev (remdups (rev xs)))"
proof (induction xs arbitrary: acc)
  case Nil
  then show ?case by simp
next
  case (Cons x xs)
  have r: "rev (remdups (rev xs @ [x])) = x # filter (\<lambda>y. y \<noteq> x) (rev (remdups (rev xs)))"
    by (induction xs rule: rev_induct) (auto simp: remdups_append2 remdups_filter rev_filter)
  show ?case
  proof (cases "x \<in> set acc")
    case True
    then have "filter (\<lambda>y. y \<notin> set acc) (filter (\<lambda>y. y \<noteq> x) (rev (remdups (rev xs))))
        = filter (\<lambda>y. y \<notin> set acc) (rev (remdups (rev xs)))"
      by (auto intro: filter_cong)
    with True show ?thesis by (simp add: Cons r)
  next
    case False
    have "filter (\<lambda>y. y \<notin> set (acc @ [x])) (rev (remdups (rev xs)))
        = filter (\<lambda>y. y \<notin> set acc) (filter (\<lambda>y. y \<noteq> x) (rev (remdups (rev xs))))"
      by (auto intro: filter_cong)
    with False show ?thesis by (simp add: Cons r)
  qed
qed

text \<open>The keys in the order in which they are first seen, each once.\<close>

lemma unique_first_seen: "unique xs = rev (remdups (rev xs))"
  by (simp add: unique_def unique_foldl)

lemma unique_set_distinct: "set (unique xs) = set xs \<and> distinct (unique xs)"
  by (simp add: unique_first_seen)

lemma parse_proto:
  "JSON_parse (js ''[{\"__proto__\":1},{}]'')
     = Some (Array [Object [(js ''__proto__'', Number (Finite 1))], Object []])"
  using to_double_nat[of 1]
  by (simp add: JSON_parse_def tokenize_eval parse_eval number_eval)

text \<open>
  Claim C5 at the input \<open>[{"__proto__":1},{}]\<close>.  The second element has no
  property \<open>__proto__\<close> of its own, and the claim gives its row an empty field; the
  code reads \<open>item[key]\<close>, which finds \<open>Object.prototype\<close>, and writes \<open>{}\<close>.  The
  claim's own example, \<open>[{a:1,b:2},{a:3}]\<close>, gives the header \<open>a,b\<close> and the rows
  \<open>1,2\<close> and \<open>3,\<close>.
\<close>

theorem csv_missing_value_inherited:
  "jsonToCsv (String (js ''[{\"__proto__\":1},{}]''))
     = Inr (js ''__proto__'' @ [10] @ js ''1'' @ [10] @ js ''{}'')
   \<and> jsonToCsv (Array [Object [(js ''a'', Number (Finite 1)), (js ''b'', Number (Finite 2))],
                       Object [(js ''a'', Number (Finite 3))]])
     = Inr (js ''a,b'' @ [10] @ js ''1,2'' @ [10] @ js ''3,'')"
proof -
  have p: "to_obj (String (js ''[{\"__proto__\":1},{}]''))
      = Array [Object [(js ''__proto__'', Number (Finite 1))], Object []]"
    by (simp add: to_obj_def parseJson_def parse_proto)
  show ?thesis
    unfolding jsonToCsv_def p
    by (simp add: to_obj_def Let_def unique_def get_property_def
        escapeCsv_def str_includes_def replace_all_def prototype_functions_def
        Number_toString_digit[of 1, simplified] Number_toString_digit[of 2, simplified]
        Number_toString_digit[of 3, simplified] js_def)
qed

section \<open>The binary64 values\<close>

lemma pow2_le_imp: "(2::rat) powi a \<le> 2 powi b \<Longrightarrow> a \<le> b"
  using power_int_strict_increasing[of b a "2::rat"] by (cases "a \<le> b") auto

lemma pow2_add: "(2::rat) powi (a + b) = 2 powi a * 2 powi b"
  by (rule power_int_add) simp

lemma pow2_eqI: "a = b \<Longrightarrow> (2::rat) powi a = 2 powi b"
  by simp

lemma rhe_nonneg: "0 \<le> t \<Longrightarrow> 0 \<le> round_half_even t"
  using rhe_ge[of 0 t] by simp

text \<open>The shape of a finite result of \<open>round_pos\<close>.\<close>

lemma round_pos_FiniteD:
  assumes "0 < x" and "round_pos x = Finite y"
  shows "\<exists>r e. y = of_int r * 2 powi e \<and> 0 \<le> r \<and> r < 2 ^ 53 \<and> - 1074 \<le> e \<and> e \<le> 971
           \<and> (2 ^ 52 \<le> r \<or> e = - 1074)"
proof -
  define e' where "e' = max (ilog2 x) (- 1022)"
  define q where "q = (2::rat) powi (e' - 52)"
  define t where "t = x / q"
  define r where "r = round_half_even t"
  have small: "x < 2 ^ 1024 - 2 ^ 970"
    using assms(2) by (auto simp: round_pos_def split: if_splits)
  then have y: "y = of_int r * q"
    using assms(2) by (simp add: round_pos_def Let_def r_def t_def q_def e'_def)
  have qp: "0 < q" by (simp add: q_def)
  have tp: "0 \<le> t" using assms(1) qp by (simp add: t_def)
  have r0: "0 \<le> r" using rhe_nonneg[OF tp] by (simp add: r_def)
  note b = ilog2_bounds[OF assms(1)]
  have "(2::rat) powi ilog2 x < 2 powi 1024" using b small by simp
  then have "ilog2 x < 1024" by (rule pow2_less_imp)
  then have e'hi: "e' \<le> 1023" by (simp add: e'_def)
  have e'lo: "- 1022 \<le> e'" by (simp add: e'_def)
  have xq: "x = t * q" using qp by (simp add: t_def)
  have "x < 2 powi (e' + 1)"
  proof -
    have "(2::rat) powi (ilog2 x + 1) \<le> 2 powi (e' + 1)"
      by (intro power_int_increasing) (auto simp: e'_def)
    with b show ?thesis by linarith
  qed
  also have "\<dots> = 2 ^ 53 * q"
  proof -
    have "(2::rat) powi (e' + 1) = 2 powi (53 + (e' - 52))" by (rule pow2_eqI) simp
    also have "\<dots> = 2 powi 53 * 2 powi (e' - 52)" by (rule pow2_add)
    finally show ?thesis by (simp add: q_def)
  qed
  finally have "x < 2 ^ 53 * q" .
  then have "t * q < 2 ^ 53 * q" by (simp only: xq[symmetric])
  then have t53: "t < 2 ^ 53" using qp by simp
  then have "t \<le> of_int (2 ^ 53)" by simp
  then have r53: "r \<le> 2 ^ 53" unfolding r_def by (rule rhe_le)
  have normal: "2 ^ 52 \<le> r" if n: "- 1022 \<le> ilog2 x"
  proof -
    have e: "e' = ilog2 x" using n by (simp add: e'_def)
    have "(2::rat) powi e' = 2 powi (52 + (e' - 52))" by (rule pow2_eqI) simp
    also have "\<dots> = 2 powi 52 * 2 powi (e' - 52)" by (rule pow2_add)
    finally have p: "(2::rat) powi e' = 2 ^ 52 * q" by (simp add: q_def)
    from b have "2 powi e' \<le> x" by (simp only: e)
    then have "2 ^ 52 * q \<le> x" by (simp only: p)
    then have "2 ^ 52 * q \<le> t * q" by (simp only: xq[symmetric])
    then have "2 ^ 52 \<le> t" using qp by simp
    then have "of_int (2 ^ 52) \<le> t" by simp
    then show ?thesis unfolding r_def by (rule rhe_ge)
  qed
  show ?thesis
  proof (cases "r = 2 ^ 53")
    case True
    have "e' \<noteq> 1023"
    proof
      assume e: "e' = 1023"
      have qv: "q = 2 ^ 971" by (simp add: q_def e)
      have "(2 ^ 53 - 1 / 2) * q = 2 ^ 1024 - 2 ^ 970" by (simp add: qv)
      with small have "x < (2 ^ 53 - 1 / 2) * q" by simp
      then have "t * q < (2 ^ 53 - 1 / 2) * q" by (simp only: xq[symmetric])
      then have "t < 2 ^ 53 - 1 / 2" using qp by (simp only: mult_less_cancel_right_pos)
      then have "t < of_int (2 ^ 53) - 1 / 2" by simp
      then have "r \<le> 2 ^ 53 - 1" unfolding r_def by (rule rhe_lt_half)
      with True show False by simp
    qed
    with e'hi have e'1022: "e' \<le> 1022" by simp
    have q': "2 * q = 2 powi (e' - 51)"
    proof -
      have "2 * q = 2 powi 1 * 2 powi (e' - 52)" by (simp add: q_def)
      also have "\<dots> = 2 powi (1 + (e' - 52))" by (rule pow2_add[symmetric])
      also have "\<dots> = 2 powi (e' - 51)" by (rule pow2_eqI) simp
      finally show ?thesis .
    qed
    have "y = of_int (2 ^ 52) * (2 * q)" using y True by simp
    then have yv: "y = of_int (2 ^ 52) * 2 powi (e' - 51)" by (simp only: q')
    have "(0::int) \<le> 2 ^ 52 \<and> (2::int) ^ 52 < 2 ^ 53 \<and> - 1074 \<le> e' - 51 \<and> e' - 51 \<le> 971
        \<and> ((2::int) ^ 52 \<le> 2 ^ 52 \<or> e' - 51 = - 1074)"
      using e'1022 e'lo by simp
    with yv show ?thesis by blast
  next
    case False
    with r53 have "r < 2 ^ 53" by simp
    moreover have "2 ^ 52 \<le> r \<or> e' - 52 = - 1074"
      using normal by (cases "- 1022 \<le> ilog2 x") (auto simp: e'_def)
    moreover have "y = of_int r * 2 powi (e' - 52)" using y by (simp only: q_def)
    moreover have "- 1074 \<le> e' - 52 \<and> e' - 52 \<le> 971" using e'hi e'lo by simp
    ultimately show ?thesis using r0 by blast
  qed
qed

lemma round_pos_idem:
  assumes "0 < x" and "round_pos x = Finite y"
  shows "y = 0 \<or> (0 < y \<and> round_pos y = Finite y)"
proof -
  from round_pos_FiniteD[OF assms] obtain r e where
    y: "y = of_int r * 2 powi e" and r: "0 \<le> r" "r < 2 ^ 53"
    and e: "- 1074 \<le> e" "e \<le> 971" and n: "2 ^ 52 \<le> r \<or> e = - 1074"
    by blast
  show ?thesis
  proof (cases "r = 0")
    case True
    then show ?thesis by (simp add: y)
  next
    case False
    with r have rp: "0 < r" by simp
    then have "0 < y" by (simp add: y)
    moreover have "round_pos y = Finite y"
      unfolding y using rp r(2) e n by (rule round_pos_grid)
    ultimately show ?thesis by simp
  qed
qed

text \<open>The binary64 values: the rationals that rounding leaves as they are.\<close>

definition is_double :: "rat \<Rightarrow> bool" where
  "is_double y = (to_double y = Finite y)"

lemma to_double_idem:
  assumes "to_double x = Finite y"
  shows "is_double y"
proof -
  consider "x = 0" | "x < 0" | "0 < x" by linarith
  then show ?thesis
  proof cases
    case 1
    then show ?thesis using assms by (auto simp: to_double_def is_double_def)
  next
    case 2
    then have "negate (round_pos (- x)) = Finite y" using assms by (simp add: to_double_def)
    then have rp: "round_pos (- x) = Finite (- y)"
      by (cases "round_pos (- x)") auto
    from 2 have "0 < - x" by simp
    from round_pos_idem[OF this rp] show ?thesis
      by (auto simp: to_double_def is_double_def)
  next
    case 3
    then have "round_pos x = Finite y" using assms by (simp add: to_double_def)
    from round_pos_idem[OF 3 this] show ?thesis
      by (auto simp: to_double_def is_double_def)
  qed
qed

lemma to_double_not_NaN: "to_double x \<noteq> NaN"
proof -
  have "round_pos z \<noteq> NaN" for z by (simp add: round_pos_def Let_def)
  moreover have "negate n \<noteq> NaN" if "n \<noteq> NaN" for n using that by (cases n) auto
  ultimately show ?thesis by (simp add: to_double_def)
qed

lemma to_double_minus: "to_double (- x) = negate (to_double x)"
proof -
  have "negate (negate n) = n" for n by (cases n) auto
  then show ?thesis by (auto simp: to_double_def)
qed

lemma is_double_minus: "is_double (- y) = is_double y"
  by (cases "to_double y") (auto simp: is_double_def to_double_minus)

text \<open>A binary64 value is a multiple of \<open>2 ^ - 1074\<close>.\<close>

lemma is_double_multiple:
  assumes "is_double y"
  shows "\<exists>m::int. y * 2 ^ 1074 = of_int m"
proof -
  have pos: "\<exists>m::int. y * 2 ^ 1074 = of_int m" if "0 < y" "round_pos y = Finite y" for y
  proof -
    from round_pos_FiniteD[OF that] obtain r e where
      y: "y = of_int r * 2 powi e" and e: "- 1074 \<le> e" by blast
    define k where "k = nat (e + 1074)"
    have "e = int k + (- 1074)" using e by (simp add: k_def)
    then have "(2::rat) powi e = 2 powi (int k) * 2 powi (- 1074)"
      by (simp only: pow2_add)
    then have "y * 2 ^ 1074 = of_int r * 2 ^ k * (2 powi (- 1074) * 2 ^ 1074)"
      by (simp add: y)
    also have "2 powi (- 1074) * (2::rat) ^ 1074 = 1"
      by (simp add: power_int_minus)
    finally have "y * 2 ^ 1074 = of_int (r * 2 ^ k)" by simp
    then show ?thesis by blast
  qed
  consider "y = 0" | "y < 0" | "0 < y" by linarith
  then show ?thesis
  proof cases
    case 1
    then show ?thesis by (intro exI[of _ 0]) simp
  next
    case 2
    then have "round_pos (- y) = Finite (- y)"
      using assms by (cases "round_pos (- y)") (auto simp: is_double_def to_double_def)
    with 2 pos[of "- y"] obtain m :: int where "- y * 2 ^ 1074 = of_int m" by auto
    then have "y * 2 ^ 1074 = of_int (- m)" by simp
    then show ?thesis by blast
  next
    case 3
    then show ?thesis using assms pos[of y] by (simp add: is_double_def to_double_def)
  qed
qed

section \<open>Decimal digits\<close>

lemma pow10_pos [simp]: "0 < (10::rat) powi e"
  by (simp add: power_int_def)

lemma pow10_add: "(10::rat) powi (a + b) = 10 powi a * 10 powi b"
  by (rule power_int_add) simp

lemma pow10_eqI: "a = b \<Longrightarrow> (10::rat) powi a = 10 powi b"
  by simp

lemma ilog10_bounds:
  assumes "0 < x"
  shows "10 powi (ilog10 x - 1) \<le> x \<and> x < 10 powi ilog10 x"
proof (cases "1 \<le> x")
  case True
  define n where "n = nat \<lfloor>x\<rfloor>"
  define fl where "fl = floorlog 10 n"
  have n: "0 < n" "of_nat n \<le> x" "x < of_nat n + 1"
    using True by (auto simp: n_def le_nat_iff intro: floor_less_cancel)
  have b: "10 ^ (fl - 1) \<le> n" "n < 10 ^ fl"
    using floorlog_bounds[of n 10] n(1) by (auto simp: fl_def)
  have flp: "0 < fl" using n(1) by (simp add: fl_def compute_floorlog)
  have i: "ilog10 x = int fl" using True by (simp add: ilog10_def n_def fl_def)
  have "ilog10 x - 1 = int (fl - 1)" using i flp by simp
  then have lo: "10 powi (ilog10 x - 1) = (10::rat) ^ (fl - 1)" by simp
  have hi: "10 powi (ilog10 x) = (10::rat) ^ fl" using i by simp
  have "(10::rat) ^ (fl - 1) \<le> of_nat n"
    using b(1) by (metis of_nat_le_iff of_nat_numeral of_nat_power)
  moreover have "of_nat n + 1 \<le> (10::rat) ^ fl"
  proof -
    have "n + 1 \<le> 10 ^ fl" using b(2) by simp
    then have "(of_nat (n + 1) :: rat) \<le> of_nat (10 ^ fl)" by (simp only: of_nat_le_iff)
    then show ?thesis by simp
  qed
  ultimately have "(10::rat) ^ (fl - 1) \<le> x" "x < (10::rat) ^ fl"
    using n(2,3) by linarith+
  then show ?thesis by (simp only: lo hi)
next
  case False
  define c where "c = \<lceil>1 / x\<rceil>"
  define m where "m = nat (c - 1)"
  define fl where "fl = floorlog 10 m"
  have ix: "1 < 1 / x" using False assms by simp
  have c: "1 / x \<le> of_int c" "of_int c - 1 < 1 / x"
    by (auto simp: c_def) linarith
  have c2: "2 \<le> c" using ix c(1) by linarith
  have m: "0 < m" "int m = c - 1" using c2 by (auto simp: m_def)
  have b: "10 ^ (fl - 1) \<le> m" "m < 10 ^ fl"
    using floorlog_bounds[of m 10] m(1) by (auto simp: fl_def)
  have flp: "0 < fl" using m(1) by (simp add: fl_def compute_floorlog)
  have i: "ilog10 x = 1 - int fl" using False by (simp add: ilog10_def c_def m_def fl_def)
  have "int m < int (10 ^ fl)" using b(2) by (simp only: of_nat_less_iff)
  then have "c \<le> 10 ^ fl" using m(2) by simp
  then have "(of_int c :: rat) \<le> of_int (10 ^ fl)" by (simp only: of_int_le_iff)
  then have "(of_int c :: rat) \<le> 10 ^ fl" by simp
  then have u: "1 / x \<le> 10 ^ fl" using c(1) by linarith
  have "int (10 ^ (fl - 1)) \<le> int m" using b(1) by (simp only: of_nat_le_iff)
  then have "10 ^ (fl - 1) \<le> c - 1" using m(2) by simp
  then have "(of_int (10 ^ (fl - 1)) :: rat) \<le> of_int (c - 1)" by (simp only: of_int_le_iff)
  then have "(10::rat) ^ (fl - 1) \<le> of_int c - 1" by simp
  then have l: "(10::rat) ^ (fl - 1) < 1 / x" using c(2) by linarith
  have "ilog10 x - 1 = - int fl" using i by simp
  then have "10 powi (ilog10 x - 1) = 1 / (10::rat) ^ fl"
    by (simp add: power_int_minus_divide)
  moreover have "1 / (10::rat) ^ fl \<le> x"
    using u assms by (simp add: field_simps)
  moreover have "10 powi (ilog10 x) = 1 / (10::rat) ^ (fl - 1)"
  proof -
    have "ilog10 x = - int (fl - 1)" using i flp by simp
    then show ?thesis by (simp add: power_int_minus_divide)
  qed
  moreover have "x < 1 / (10::rat) ^ (fl - 1)"
    using l assms by (simp add: field_simps)
  ultimately show ?thesis by simp
qed

lemma decimal_not_Nil [simp]: "decimal n \<noteq> []"
  by (subst decimal.simps) simp

lemma decimal_digits: "c \<in> set (decimal n) \<Longrightarrow> is_digit c"
proof (induction n arbitrary: c rule: decimal.induct)
  case (1 n)
  show ?case
  proof (cases "n < 10")
    case True
    with "1.prems" show ?thesis by (simp add: decimal.simps[of n] is_digit_def)
  next
    case False
    with "1.prems" have "c \<in> set (decimal (n div 10)) \<or> c = 48 + n mod 10"
      by (auto simp: decimal.simps[of n])
    then show ?thesis
    proof
      assume "c \<in> set (decimal (n div 10))"
      with "1.IH"[OF False] show ?thesis by simp
    next
      assume "c = 48 + n mod 10"
      moreover have "n mod 10 < 10" by simp
      ultimately show ?thesis by (simp add: is_digit_def)
    qed
  qed
qed

lemma digits_value_snoc: "digits_value (ds @ [c]) = 10 * digits_value ds + (c - 48)"
  by (simp add: digits_value_def)

lemma digits_value_Nil [simp]: "digits_value [] = 0"
  by (simp add: digits_value_def)

lemma digits_value_append:
  "digits_value (a @ b) = digits_value a * 10 ^ length b + digits_value b"
proof (induction b rule: rev_induct)
  case Nil
  then show ?case by simp
next
  case (snoc c b)
  have "digits_value (a @ b @ [c]) = 10 * digits_value (a @ b) + (c - 48)"
    using digits_value_snoc[of "a @ b" c] by simp
  then show ?case by (simp add: snoc digits_value_snoc algebra_simps)
qed

lemma digits_value_decimal: "digits_value (decimal n) = n"
proof (induction n rule: decimal.induct)
  case (1 n)
  show ?case
  proof (cases "n < 10")
    case True
    then show ?thesis by (simp add: decimal.simps[of n] digits_value_def)
  next
    case False
    then show ?thesis
      using "1.IH"[OF False] by (simp add: decimal.simps[of n] digits_value_snoc)
  qed
qed

lemma hd_decimal: "0 < n \<Longrightarrow> hd (decimal n) \<noteq> 48"
proof (induction n rule: decimal.induct)
  case (1 n)
  show ?case
  proof (cases "n < 10")
    case True
    with "1.prems" show ?thesis by (simp add: decimal.simps[of n])
  next
    case False
    then have "0 < n div 10" by (simp add: div_greater_zero_iff)
    with "1.IH"[OF False] have "hd (decimal (n div 10)) \<noteq> 48" by simp
    with False show ?thesis by (simp add: decimal.simps[of n])
  qed
qed

lemma length_decimal:
  "10 ^ k \<le> n \<Longrightarrow> n < 10 ^ Suc k \<Longrightarrow> length (decimal n) = Suc k"
proof (induction k arbitrary: n)
  case 0
  then show ?case by (simp add: decimal.simps[of n])
next
  case (Suc k)
  from Suc.prems have ge: "\<not> n < 10"
    by (metis One_nat_def le_trans not_le one_le_numeral power_Suc0_right
        power_increasing self_le_power zero_less_Suc power_one_right)
  have "10 ^ k \<le> n div 10" using Suc.prems(1) by (simp add: less_eq_div_iff_mult_less_eq)
  moreover have "n div 10 < 10 ^ Suc k"
    using Suc.prems(2) by (simp add: less_mult_imp_div_less mult.commute)
  ultimately have "length (decimal (n div 10)) = Suc k" by (rule Suc.IH)
  with ge show ?case by (simp add: decimal.simps[of n])
qed


section \<open>The shortest digits\<close>

lemma digit_candidate_cases:
  assumes "digit_candidate y n0 k = Some (s, n)"
  obtains s0 where "s0 = \<lfloor>y / 10 powi (n0 - int k)\<rfloor> \<or> s0 = \<lfloor>y / 10 powi (n0 - int k)\<rfloor> + 1"
    and "to_double (of_int s0 * 10 powi (n0 - int k)) = Finite y"
    and "s0 = 10 ^ k \<Longrightarrow> s = 10 ^ (k - 1) \<and> n = n0 + 1"
    and "s0 \<noteq> 10 ^ k \<Longrightarrow> s = s0 \<and> n = n0"
proof -
  define scale where "scale = (10::rat) powi (n0 - int k)"
  define lo where "lo = \<lfloor>y / scale\<rfloor>"
  define pick where "pick =
    (if to_double (of_int lo * scale) = Finite y \<and> to_double (of_int (lo + 1) * scale) = Finite y
     then (if y - of_int lo * scale < of_int (lo + 1) * scale - y then Some lo
           else if of_int (lo + 1) * scale - y < y - of_int lo * scale then Some (lo + 1)
           else if even lo then Some lo else Some (lo + 1))
     else if to_double (of_int lo * scale) = Finite y then Some lo
     else if to_double (of_int (lo + 1) * scale) = Finite y then Some (lo + 1)
     else None)"
  have dc: "digit_candidate y n0 k =
      (case pick of None \<Rightarrow> None
       | Some s \<Rightarrow> if s = 10 ^ k then Some (10 ^ (k - 1), n0 + 1) else Some (s, n0))"
    by (simp add: digit_candidate_def Let_def pick_def lo_def scale_def)
  with assms obtain s0 where p: "pick = Some s0" by (cases pick) auto
  have a: "s0 = lo \<or> s0 = lo + 1"
    using p by (auto simp: pick_def split: if_splits)
  have b: "to_double (of_int s0 * scale) = Finite y"
    using p by (auto simp: pick_def split: if_splits)
  have c: "s0 = 10 ^ k \<Longrightarrow> s = 10 ^ (k - 1) \<and> n = n0 + 1"
    using assms dc p by auto
  have d: "s0 \<noteq> 10 ^ k \<Longrightarrow> s = s0 \<and> n = n0"
    using assms dc p by auto
  from a b c d show ?thesis
    using that[of s0] by (simp add: lo_def scale_def)
qed

lemma digit_candidate_exact:
  assumes "is_double y" and "y = of_int m * 10 powi (n0 - int k)"
  shows "digit_candidate y n0 k \<noteq> None"
proof -
  define scale where "scale = (10::rat) powi (n0 - int k)"
  have sp: "0 < scale" by (simp add: scale_def)
  have "y / scale = of_int m" using assms(2) sp
    unfolding scale_def[symmetric] by (metis less_irrefl nonzero_mult_div_cancel_right)
  then have lo: "\<lfloor>y / scale\<rfloor> = m" by simp
  have "to_double (of_int m * scale) = Finite y"
    using assms by (simp add: is_double_def scale_def)
  then show ?thesis
    unfolding digit_candidate_def Let_def scale_def[symmetric] lo
    by (auto split: option.splits)
qed

lemma digit_candidate_spec:
  assumes "0 < y" and "0 < k" and "digit_candidate y (ilog10 y) k = Some (s, n)"
  shows "10 ^ (k - 1) \<le> s \<and> s < 10 ^ k
       \<and> to_double (of_int s * 10 powi (n - int k)) = Finite y"
proof -
  define n0 where "n0 = ilog10 y"
  define scale where "scale = (10::rat) powi (n0 - int k)"
  define lo where "lo = \<lfloor>y / scale\<rfloor>"
  have sp: "0 < scale" by (simp add: scale_def)
  note b = ilog10_bounds[OF assms(1), folded n0_def]
  have s1: "(10::rat) powi (n0 - 1) = 10 ^ (k - 1) * scale"
  proof -
    have "(10::rat) powi (n0 - 1) = 10 powi (int (k - 1) + (n0 - int k))"
      using assms(2) by (intro pow10_eqI) simp
    also have "\<dots> = 10 powi int (k - 1) * scale" unfolding scale_def by (rule pow10_add)
    finally show ?thesis by simp
  qed
  have s2: "(10::rat) powi n0 = 10 ^ k * scale"
  proof -
    have "(10::rat) powi n0 = 10 powi (int k + (n0 - int k))" by (intro pow10_eqI) simp
    also have "\<dots> = 10 powi int k * scale" unfolding scale_def by (rule pow10_add)
    finally show ?thesis by simp
  qed
  have "10 ^ (k - 1) * scale \<le> y" using b s1 by simp
  then have "10 ^ (k - 1) \<le> y / scale" using sp by (simp add: pos_le_divide_eq)
  then have "of_int (10 ^ (k - 1)) \<le> y / scale" by simp
  then have lo1: "10 ^ (k - 1) \<le> lo" unfolding lo_def by (simp only: le_floor_iff)
  have "y < 10 ^ k * scale" using b s2 by simp
  then have "y / scale < 10 ^ k" using sp by (simp add: pos_divide_less_eq)
  then have "y / scale < of_int (10 ^ k)" by simp
  then have lo2: "lo < 10 ^ k" unfolding lo_def by (simp only: floor_less_iff)
  from assms(3)[folded n0_def] obtain s0 where
    a: "s0 = lo \<or> s0 = lo + 1"
    and r: "to_double (of_int s0 * scale) = Finite y"
    and c: "s0 = 10 ^ k \<Longrightarrow> s = 10 ^ (k - 1) \<and> n = n0 + 1"
    and d: "s0 \<noteq> 10 ^ k \<Longrightarrow> s = s0 \<and> n = n0"
    unfolding lo_def scale_def by (rule digit_candidate_cases) blast
  show ?thesis
  proof (cases "s0 = 10 ^ k")
    case True
    with c have s: "s = 10 ^ (k - 1)" and n: "n = n0 + 1" by auto
    have "(10::rat) powi (n - int k) = 10 powi (1 + (n0 - int k))"
      unfolding n by (intro pow10_eqI) simp
    also have "\<dots> = 10 * scale" unfolding scale_def pow10_add by simp
    finally have "of_int s * 10 powi (n - int k) = (10 ^ (k - 1) * 10) * scale"
      by (simp add: s)
    also have "(10::rat) ^ (k - 1) * 10 = 10 ^ k"
      using assms(2) by (cases k) auto
    finally have "of_int s * 10 powi (n - int k) = of_int s0 * scale"
      using True by simp
    with r have "to_double (of_int s * 10 powi (n - int k)) = Finite y" by simp
    moreover have "(10::int) ^ (k - 1) < 10 ^ k" using assms(2) by (cases k) auto
    ultimately show ?thesis using s by simp
  next
    case False
    with d have s: "s = s0" and n: "n = n0" by auto
    from a lo1 lo2 False have "10 ^ (k - 1) \<le> s0 \<and> s0 < 10 ^ k" by auto
    with r show ?thesis by (simp add: s n scale_def)
  qed
qed

lemma is_double_decimal:
  assumes "is_double y" and "n0 + 1074 \<le> int k"
  shows "\<exists>m::int. y = of_int m * 10 powi (n0 - int k)"
proof -
  define P2 where "P2 = (2::rat) ^ 1074"
  define P5 where "P5 = (5::rat) ^ 1074"
  define j where "j = nat (int k - n0 - 1074)"
  define T where "T = (10::rat) ^ j"
  from is_double_multiple[OF assms(1)] obtain m0 :: int where m0: "y * P2 = of_int m0"
    unfolding P2_def by blast
  have nz: "P2 \<noteq> 0" "P5 \<noteq> 0" "T \<noteq> 0"
    unfolding P2_def P5_def T_def by (rule power_not_zero, simp)+
  have e: "n0 - int k = - int (1074 + j)" using assms(2) by (simp add: j_def)
  have ten: "(10::rat) = 2 * 5" by simp
  have "(10::rat) ^ 1074 = (2 * 5) ^ 1074" by (subst ten) (rule refl)
  also have "\<dots> = P2 * P5" unfolding P2_def P5_def by (rule power_mult_distrib)
  finally have "(10::rat) ^ (1074 + j) = P2 * P5 * T" by (simp only: power_add T_def)
  then have p: "(10::rat) powi (n0 - int k) = 1 / (P2 * P5 * T)"
    unfolding e by (simp only: power_int_minus_divide power_int_of_nat)
  have P5i: "P5 = of_int (5 ^ 1074)" by (simp only: P5_def of_int_power of_int_numeral)
  have Ti: "T = of_int (10 ^ j)" by (simp only: T_def of_int_power of_int_numeral)
  have "y = of_int m0 / P2" using m0 nz(1) by (simp add: field_simps)
  also have "\<dots> = (of_int m0 * P5 * T) * (1 / (P2 * P5 * T))" using nz by simp
  also have "of_int m0 * P5 * T = of_int (m0 * 5 ^ 1074 * 10 ^ j)"
    by (simp only: P5i Ti of_int_mult)
  finally have "y = of_int (m0 * 5 ^ 1074 * 10 ^ j) * 10 powi (n0 - int k)"
    by (simp only: p)
  then show ?thesis by (rule exI)
qed

lemma shortest_digits_from_spec:
  "0 < y \<Longrightarrow> is_double y \<Longrightarrow> 0 < k \<Longrightarrow> n0 = ilog10 y \<Longrightarrow> K = nat (n0 + 1074) \<Longrightarrow>
   shortest_digits_from y n0 K k = (s, k', n) \<Longrightarrow>
   0 < k' \<and> 10 ^ (k' - 1) \<le> s \<and> s < 10 ^ k'
     \<and> to_double (of_int s * 10 powi (n - int k')) = Finite y"
proof (induction y n0 K k rule: shortest_digits_from.induct)
  case (1 x n0 K k)
  show ?case
  proof (cases "digit_candidate x n0 k")
    case (Some p)
    obtain s1 n1 where p: "p = (s1, n1)" by (cases p)
    with Some "1.prems"(6) have eq: "s = s1" "k' = k" "n = n1"
      by (simp_all add: shortest_digits_from.simps[of x n0 K k])
    from Some p have "digit_candidate x (ilog10 x) k = Some (s, n)"
      using "1.prems"(4) eq by simp
    from digit_candidate_spec[OF "1.prems"(1,3) this] "1.prems"(3) show ?thesis
      by (simp add: eq)
  next
    case None
    have "\<not> K \<le> k"
    proof
      assume "K \<le> k"
      then have "n0 + 1074 \<le> int k" using "1.prems"(5) by simp
      from is_double_decimal[OF "1.prems"(2) this] obtain m :: int
        where "x = of_int m * 10 powi (n0 - int k)" by blast
      from digit_candidate_exact[OF "1.prems"(2) this] None show False by simp
    qed
    moreover from this None "1.prems"(6)
    have "shortest_digits_from x n0 K (Suc k) = (s, k', n)"
      by (simp add: shortest_digits_from.simps[of x n0 K k])
    ultimately show ?thesis
      using "1.IH"[OF None] "1.prems" by simp
  qed
qed

lemma shortest_digits_spec:
  assumes "0 < y" and "is_double y" and "shortest_digits y = (s, k, n)"
  shows "0 < k \<and> 10 ^ (k - 1) \<le> s \<and> s < 10 ^ k
       \<and> to_double (of_int s * 10 powi (n - int k)) = Finite y"
  using shortest_digits_from_spec[OF assms(1,2), of 1 "ilog10 y" _ s k n] assms(3)
  by (simp add: shortest_digits_def Let_def)

section \<open>Reading a number back\<close>

text \<open>What may follow a number: nothing that would be read as more of it.\<close>

definition ends_number :: "jstring \<Rightarrow> bool" where
  "ends_number rest =
     (rest = [] \<or> \<not> (is_digit (hd rest) \<or> hd rest = 46 \<or> hd rest = 101 \<or> hd rest = 69))"

lemma takeWhile_digits:
  assumes "\<forall>c\<in>set ds. is_digit c" and "rest = [] \<or> \<not> is_digit (hd rest)"
  shows "takeWhile is_digit (ds @ rest) = ds" and "dropWhile is_digit (ds @ rest) = rest"
proof -
  have t: "takeWhile is_digit rest = []" using assms(2) by (cases rest) auto
  have d: "dropWhile is_digit rest = rest" using assms(2) by (cases rest) auto
  show "takeWhile is_digit (ds @ rest) = ds"
    using assms(1) t by (simp add: takeWhile_append2)
  show "dropWhile is_digit (ds @ rest) = rest"
    using assms(1) d by (simp add: dropWhile_append2)
qed

lemma lex_digits_append:
  assumes "ds \<noteq> []" and "\<forall>c\<in>set ds. is_digit c" and "rest = [] \<or> \<not> is_digit (hd rest)"
  shows "lex_digits (ds @ rest) = Some (ds, rest)"
  using assms takeWhile_digits[OF assms(2,3)] by (simp add: lex_digits_def Let_def)

lemma lex_frac_none:
  assumes "rest = [] \<or> hd rest \<noteq> 46"
  shows "lex_frac rest = Some ([], rest)"
  using assms by (cases rest) (auto simp: lex_frac_def)

lemma lex_frac_some:
  assumes "fp \<noteq> []" and "\<forall>c\<in>set fp. is_digit c" and "rest = [] \<or> \<not> is_digit (hd rest)"
  shows "lex_frac (46 # fp @ rest) = Some (fp, rest)"
  using lex_digits_append[OF assms] by (simp add: lex_frac_def)

lemma lex_exp_none:
  assumes "rest = [] \<or> (hd rest \<noteq> 101 \<and> hd rest \<noteq> 69)"
  shows "lex_exp rest = Some (0, rest)"
  using assms by (cases rest) (auto simp: lex_exp_def)

lemma lex_exp_some:
  assumes "rest = [] \<or> \<not> is_digit (hd rest)"
  shows "lex_exp (101 # (if e < 0 then 45 else 43) # decimal (nat \<bar>e\<bar>) @ rest) = Some (e, rest)"
proof -
  have "lex_digits (decimal (nat \<bar>e\<bar>) @ rest) = Some (decimal (nat \<bar>e\<bar>), rest)"
    using assms by (intro lex_digits_append) (auto simp: decimal_digits)
  then show ?thesis
    by (simp add: lex_exp_def digits_value_decimal)
qed

text \<open>
  A number text: the digits of an integer part, the digits of a fraction behind a
  point if there are any, and an exponent or none.
\<close>

lemma lex_unsigned_parts:
  assumes ip: "ip \<noteq> []" "\<forall>c\<in>set ip. is_digit c" "hd ip \<noteq> 48 \<or> length ip = 1"
    and fp: "\<forall>c\<in>set fp. is_digit c"
    and ex: "(exp_text = [] \<and> ex = 0)
           \<or> exp_text = 101 # (if ex < 0 then 45 else 43) # decimal (nat \<bar>ex\<bar>)"
    and rest: "ends_number rest"
  shows "lex_unsigned (ip @ (if fp = [] then [] else 46 # fp) @ exp_text @ rest)
         = Some (of_nat (digits_value (ip @ fp)) * 10 powi (ex - int (length fp)), rest)"
proof -
  define Y where "Y = exp_text @ rest"
  define X where "X = (if fp = [] then [] else 46 # fp) @ Y"
  have rest': "rest = [] \<or> \<not> is_digit (hd rest)" "rest = [] \<or> hd rest \<noteq> 46"
    "rest = [] \<or> (hd rest \<noteq> 101 \<and> hd rest \<noteq> 69)"
    using rest by (auto simp: ends_number_def)
  have Yd: "Y = [] \<or> \<not> is_digit (hd Y)"
    using ex rest'(1) by (auto simp: Y_def is_digit_def)
  have Yp: "Y = [] \<or> hd Y \<noteq> 46"
    using ex rest'(2) by (auto simp: Y_def)
  have Xd: "X = [] \<or> \<not> is_digit (hd X)"
    using Yd by (auto simp: X_def is_digit_def)
  have "lex_digits (ip @ X) = Some (ip, X)"
    using ip(1,2) Xd by (rule lex_digits_append)
  then have 1: "lex_int (ip @ X) = Some (ip, X)"
    using ip(3) by (auto simp: lex_int_def)
  have 2: "lex_frac X = Some (fp, Y)"
  proof (cases "fp = []")
    case True
    then show ?thesis using lex_frac_none[OF Yp] by (simp add: X_def)
  next
    case False
    then show ?thesis using lex_frac_some[OF False fp Yd] by (simp add: X_def)
  qed
  have 3: "lex_exp Y = Some (ex, rest)"
    using ex
  proof
    assume "exp_text = [] \<and> ex = 0"
    then show ?thesis using lex_exp_none[OF rest'(3)] by (simp add: Y_def)
  next
    assume "exp_text = 101 # (if ex < 0 then 45 else 43) # decimal (nat \<bar>ex\<bar>)"
    then show ?thesis using lex_exp_some[OF rest'(1), of ex] by (simp add: Y_def)
  qed
  have "lex_unsigned (ip @ X)
      = Some (of_nat (digits_value (ip @ fp)) * 10 powi (ex - int (length fp)), rest)"
    by (simp add: lex_unsigned_def 1 2 3)
  then show ?thesis by (simp add: X_def Y_def)
qed


lemma digits_value_zeros [simp]: "digits_value (replicate z 48) = 0"
proof (induction z)
  case 0
  then show ?case by simp
next
  case (Suc z)
  have "replicate (Suc z) (48::nat) = replicate z 48 @ [48]"
    by (simp add: replicate_append_same)
  then show ?case using Suc by (simp add: digits_value_snoc)
qed

lemma digits_value_leading_zeros [simp]: "digits_value (replicate z 48 @ ds) = digits_value ds"
  by (simp add: digits_value_append)

lemma digits_value_leading_zero [simp]: "digits_value (48 # ds) = digits_value ds"
  using digits_value_leading_zeros[of 1 ds] by simp

lemma is_digit_zeros: "\<forall>c\<in>set (replicate z 48). is_digit c"
  by (simp add: is_digit_def)

lemma pow10_nat: "0 \<le> e \<Longrightarrow> (10::rat) powi e = 10 ^ nat e"
  by (simp add: power_int_def)

lemma lex_unsigned_nofrac:
  assumes "ip \<noteq> []" and "\<forall>c\<in>set ip. is_digit c" and "hd ip \<noteq> 48 \<or> length ip = 1"
    and "(exp_text = [] \<and> ex = 0)
           \<or> exp_text = 101 # (if ex < 0 then 45 else 43) # decimal (nat \<bar>ex\<bar>)"
    and "ends_number rest"
  shows "lex_unsigned (ip @ exp_text @ rest)
         = Some (of_nat (digits_value ip) * 10 powi ex, rest)"
  using lex_unsigned_parts[OF assms(1-3) _ assms(4,5), of "[]"] by simp

lemma lex_unsigned_frac:
  assumes "ip \<noteq> []" and "\<forall>c\<in>set ip. is_digit c" and "hd ip \<noteq> 48 \<or> length ip = 1"
    and "fp \<noteq> []" and "\<forall>c\<in>set fp. is_digit c"
    and "(exp_text = [] \<and> ex = 0)
           \<or> exp_text = 101 # (if ex < 0 then 45 else 43) # decimal (nat \<bar>ex\<bar>)"
    and "ends_number rest"
  shows "lex_unsigned (ip @ 46 # fp @ exp_text @ rest)
         = Some (of_nat (digits_value (ip @ fp)) * 10 powi (ex - int (length fp)), rest)"
  using lex_unsigned_parts[OF assms(1-3) assms(5) assms(6,7)] assms(4) by simp

lemma decimal_facts:
  assumes "0 < k" and "10 ^ (k - 1) \<le> s" and "s < 10 ^ k"
  shows "length (decimal (nat s)) = k" and "hd (decimal (nat s)) \<noteq> 48"
    and "(of_nat (nat s) :: rat) = of_int s"
proof -
  have "(0::int) < 10 ^ (k - 1)" by simp
  with assms(2) have sp: "0 < s" by linarith
  have "int (10 ^ (k - 1)) \<le> int (nat s)" using assms(2) sp by simp
  then have l1: "10 ^ (k - 1) \<le> nat s" by (simp only: of_nat_le_iff)
  have "Suc (k - 1) = k" using assms(1) by simp
  then have "int (nat s) < int (10 ^ Suc (k - 1))" using assms(3) sp by simp
  then have l2: "nat s < 10 ^ Suc (k - 1)" by (simp only: of_nat_less_iff)
  from l1 l2 have "length (decimal (nat s)) = Suc (k - 1)" by (rule length_decimal)
  then show "length (decimal (nat s)) = k" using assms(1) by simp
  show "hd (decimal (nat s)) \<noteq> 48" using sp by (simp add: hd_decimal)
  show "(of_nat (nat s) :: rat) = of_int s" using sp by simp
qed

text \<open>The four layouts of \<open>Number::toString\<close>.\<close>

lemma lex_format_integer:
  assumes "0 < k" and "10 ^ (k - 1) \<le> s" and "s < 10 ^ k" and "ends_number rest"
    and "int k \<le> n" and "n \<le> 21"
  shows "lex_unsigned (format_digits s k n @ rest)
         = Some (of_int s * 10 powi (n - int k), rest)"
proof -
  define ds where "ds = decimal (nat s)"
  define z where "z = nat (n - int k)"
  note df = decimal_facts[OF assms(1-3), folded ds_def]
  have f: "format_digits s k n = ds @ replicate z 48"
    using assms(5,6) by (simp add: format_digits_def ds_def z_def)
  have ip: "ds @ replicate z 48 \<noteq> []" "\<forall>c\<in>set (ds @ replicate z 48). is_digit c"
    "hd (ds @ replicate z 48) \<noteq> 48 \<or> length (ds @ replicate z 48) = 1"
    using df(2) decimal_digits[of _ "nat s"] by (auto simp: ds_def is_digit_def)
  have "lex_unsigned ((ds @ replicate z 48) @ [] @ rest)
      = Some (of_nat (digits_value (ds @ replicate z 48)) * 10 powi 0, rest)"
    using ip _ assms(4) by (rule lex_unsigned_nofrac) simp
  moreover have "digits_value (ds @ replicate z 48) = nat s * 10 ^ z"
    by (simp add: digits_value_append ds_def digits_value_decimal)
  moreover have "(10::rat) powi (n - int k) = 10 ^ z"
    using assms(5) by (simp add: z_def pow10_nat)
  ultimately show ?thesis
    by (simp add: f df(3))
qed

lemma lex_format_point:
  assumes "0 < k" and "10 ^ (k - 1) \<le> s" and "s < 10 ^ k" and "ends_number rest"
    and "\<not> (int k \<le> n \<and> n \<le> 21)" and "0 < n" and "n \<le> 21"
  shows "lex_unsigned (format_digits s k n @ rest)
         = Some (of_int s * 10 powi (n - int k), rest)"
proof -
  define ds where "ds = decimal (nat s)"
  define ip where "ip = take (nat n) ds"
  define fp where "fp = drop (nat n) ds"
  note df = decimal_facts[OF assms(1-3), folded ds_def]
  have nk: "n < int k" using assms(5-7) by linarith
  have "format_digits s k n = take (nat n) ds @ [46] @ drop (nat n) ds"
    using nk assms(6,7) by (simp add: format_digits_def Let_def ds_def)
  then have f: "format_digits s k n = ip @ 46 # fp" by (simp add: ip_def fp_def)
  have dig: "\<forall>c\<in>set ds. is_digit c" by (simp add: ds_def decimal_digits)
  have fpn: "fp \<noteq> []" using nk assms(6) df(1) by (simp add: fp_def)
  have ipn: "ip \<noteq> []" using assms(6) by (simp add: ip_def ds_def)
  have hdip: "hd ip \<noteq> 48 \<or> length ip = 1" using df(2) assms(6) by (simp add: ip_def hd_take)
  have d: "\<forall>c\<in>set ip. is_digit c" "\<forall>c\<in>set fp. is_digit c"
    using dig by (auto simp: ip_def fp_def dest: in_set_takeD in_set_dropD)
  have "lex_unsigned (ip @ 46 # fp @ [] @ rest)
      = Some (of_nat (digits_value (ip @ fp)) * 10 powi (0 - int (length fp)), rest)"
    using ipn d(1) hdip fpn d(2) _ assms(4) by (rule lex_unsigned_frac) simp
  moreover have "ip @ fp = ds" by (simp add: ip_def fp_def)
  moreover have "0 - int (length fp) = n - int k"
    using assms(6) nk df(1) by (simp add: fp_def)
  ultimately show ?thesis
    by (simp add: f ds_def digits_value_decimal df(3))
qed

lemma lex_format_small:
  assumes "0 < k" and "10 ^ (k - 1) \<le> s" and "s < 10 ^ k" and "ends_number rest"
    and "\<not> (int k \<le> n \<and> n \<le> 21)" and "\<not> (0 < n \<and> n \<le> 21)" and "- 6 < n" and "n \<le> 0"
  shows "lex_unsigned (format_digits s k n @ rest)
         = Some (of_int s * 10 powi (n - int k), rest)"
proof -
  define ds where "ds = decimal (nat s)"
  define z where "z = nat (- n)"
  define fp where "fp = replicate z 48 @ ds"
  note df = decimal_facts[OF assms(1-3), folded ds_def]
  have "\<not> int k \<le> n" using assms(1,8) by simp
  then have "format_digits s k n = [48, 46] @ replicate (nat (- n)) 48 @ ds"
    using assms(7,8) by (simp add: format_digits_def Let_def ds_def)
  then have f: "format_digits s k n = [48] @ 46 # fp" by (simp add: fp_def z_def)
  have dig: "\<forall>c\<in>set ds. is_digit c" by (simp add: ds_def decimal_digits)
  have fpn: "fp \<noteq> []" by (simp add: fp_def ds_def)
  have d: "\<forall>c\<in>set fp. is_digit c" using dig by (auto simp: fp_def is_digit_def)
  have ip: "[48::nat] \<noteq> []" "\<forall>c\<in>set [48::nat]. is_digit c"
    "hd [48::nat] \<noteq> 48 \<or> length [48::nat] = 1"
    by (simp_all add: is_digit_def)
  have "lex_unsigned ([48] @ 46 # fp @ [] @ rest)
      = Some (of_nat (digits_value ([48] @ fp)) * 10 powi (0 - int (length fp)), rest)"
    using ip fpn d _ assms(4) by (rule lex_unsigned_frac) simp
  moreover have "digits_value ([48] @ fp) = nat s"
    by (simp add: fp_def ds_def digits_value_decimal)
  moreover have "0 - int (length fp) = n - int k"
    using assms(8) df(1) by (simp add: fp_def z_def)
  ultimately show ?thesis
    by (simp add: f df(3))
qed

lemma lex_format_exponent:
  assumes "0 < k" and "10 ^ (k - 1) \<le> s" and "s < 10 ^ k" and "ends_number rest"
    and "\<not> (int k \<le> n \<and> n \<le> 21)" and "\<not> (0 < n \<and> n \<le> 21)" and "\<not> (- 6 < n \<and> n \<le> 0)"
  shows "lex_unsigned (format_digits s k n @ rest)
         = Some (of_int s * 10 powi (n - int k), rest)"
proof -
  define ds where "ds = decimal (nat s)"
  define e where "e = n - 1"
  define et where "et = 101 # (if e < 0 then 45 else 43) # decimal (nat \<bar>e\<bar>)"
  note df = decimal_facts[OF assms(1-3), folded ds_def]
  have dig: "\<forall>c\<in>set ds. is_digit c" by (simp add: ds_def decimal_digits)
  have ne: "ds \<noteq> []" by (simp add: ds_def)
  have ex: "(et = [] \<and> e = 0) \<or> et = 101 # (if e < 0 then 45 else 43) # decimal (nat \<bar>e\<bar>)"
    by (simp add: et_def)
  have f0: "format_digits s k n
      = (if k = 1 then ds @ [101] @ (if e < 0 then 45 else 43) # decimal (nat \<bar>e\<bar>)
         else take 1 ds @ [46] @ drop 1 ds @ [101] @ (if e < 0 then 45 else 43) # decimal (nat \<bar>e\<bar>))"
    unfolding format_digits_def Let_def ds_def[symmetric] e_def[symmetric]
    by (simp only: assms(5,6,7) if_False)
  show ?thesis
  proof (cases "k = 1")
    case True
    have f: "format_digits s k n = ds @ et" unfolding f0 using True by (simp add: et_def)
    have "lex_unsigned (ds @ et @ rest) = Some (of_nat (digits_value ds) * 10 powi e, rest)"
      using ne dig _ ex assms(4) by (rule lex_unsigned_nofrac) (simp add: df(2))
    moreover have "e = n - int k" using True by (simp add: e_def)
    ultimately show ?thesis by (simp add: f ds_def digits_value_decimal df(3))
  next
    case False
    define ip where "ip = take 1 ds"
    define fp where "fp = drop 1 ds"
    have f: "format_digits s k n = ip @ 46 # fp @ et"
      unfolding f0 using False by (simp add: et_def ip_def fp_def)
    have fpn: "fp \<noteq> []" using False assms(1) df(1) by (simp add: fp_def)
    have ipn: "ip \<noteq> []" using ne by (simp add: ip_def)
    have hdip: "hd ip \<noteq> 48 \<or> length ip = 1" using df(2) by (simp add: ip_def hd_take)
    have dd: "\<forall>c\<in>set ip. is_digit c" "\<forall>c\<in>set fp. is_digit c"
      using dig by (auto simp: ip_def fp_def dest: in_set_takeD in_set_dropD)
    have "lex_unsigned (ip @ 46 # fp @ et @ rest)
        = Some (of_nat (digits_value (ip @ fp)) * 10 powi (e - int (length fp)), rest)"
      using ipn dd(1) hdip fpn dd(2) ex assms(4) by (rule lex_unsigned_frac)
    moreover have "ip @ fp = ds" by (simp add: ip_def fp_def)
    moreover have "e - int (length fp) = n - int k"
      using assms(1) df(1) by (simp add: fp_def e_def)
    ultimately show ?thesis
      by (simp add: f ds_def digits_value_decimal df(3))
  qed
qed

lemma lex_unsigned_format:
  assumes "0 < k" and "10 ^ (k - 1) \<le> s" and "s < 10 ^ k" and "ends_number rest"
  shows "lex_unsigned (format_digits s k n @ rest)
         = Some (of_int s * 10 powi (n - int k), rest)"
proof -
  consider (a) "int k \<le> n" "n \<le> 21"
    | (b) "\<not> (int k \<le> n \<and> n \<le> 21)" "0 < n" "n \<le> 21"
    | (c) "\<not> (int k \<le> n \<and> n \<le> 21)" "\<not> (0 < n \<and> n \<le> 21)" "- 6 < n" "n \<le> 0"
    | (d) "\<not> (int k \<le> n \<and> n \<le> 21)" "\<not> (0 < n \<and> n \<le> 21)" "\<not> (- 6 < n \<and> n \<le> 0)"
    by linarith
  then show ?thesis
  proof cases
    case a
    with assms show ?thesis by (rule lex_format_integer)
  next
    case b
    with assms show ?thesis by (rule lex_format_point)
  next
    case c
    with assms show ?thesis by (rule lex_format_small)
  next
    case d
    with assms show ?thesis by (rule lex_format_exponent)
  qed
qed


lemma lex_unsigned_hd:
  assumes "lex_unsigned t = Some (v, rest)"
  shows "t \<noteq> [] \<and> is_digit (hd t)"
proof -
  from assms obtain ip r where "lex_digits t = Some (ip, r)"
    by (auto simp: lex_unsigned_def lex_int_def split: option.splits if_splits)
  then have "takeWhile is_digit t \<noteq> []"
    by (auto simp: lex_digits_def Let_def split: if_splits)
  then show ?thesis by (cases t) (auto split: if_splits)
qed

lemma lex_unsigned_pos_toString:
  assumes "0 < y" and "is_double y" and "ends_number rest"
  shows "\<exists>v. lex_unsigned (pos_toString y @ rest) = Some (v, rest) \<and> to_double v = Finite y"
proof -
  obtain s k n where sd: "shortest_digits y = (s, k, n)" by (cases "shortest_digits y")
  from shortest_digits_spec[OF assms(1,2) sd] have
    k: "0 < k" and s: "10 ^ (k - 1) \<le> s" "s < 10 ^ k"
    and r: "to_double (of_int s * 10 powi (n - int k)) = Finite y"
    by auto
  from lex_unsigned_format[OF k s assms(3)] r show ?thesis
    by (simp add: pos_toString_def sd)
qed

text \<open>The text of a binary64 value is read back as that value.\<close>

lemma lex_number_toString:
  assumes "is_double y" and "ends_number rest"
  shows "lex_number (Number_toString (Finite y) @ rest) = Some (Finite y, rest)"
proof -
  consider "y = 0" | "0 < y" | "y < 0" by linarith
  then show ?thesis
  proof cases
    case 1
    have "lex_unsigned ([48] @ [] @ rest) = Some (of_nat (digits_value [48]) * 10 powi 0, rest)"
      using assms(2) by (intro lex_unsigned_nofrac) (auto simp: is_digit_def)
    then show ?thesis using 1
      by (simp add: lex_number_def js_def to_double_def)
  next
    case 2
    from lex_unsigned_pos_toString[OF 2 assms] obtain v where
      v: "lex_unsigned (pos_toString y @ rest) = Some (v, rest)" "to_double v = Finite y"
      by blast
    from lex_unsigned_hd[OF v(1)] obtain c cs where
      t: "pos_toString y @ rest = c # cs" "is_digit c"
      by (cases "pos_toString y @ rest") auto
    then have "c \<noteq> 45" by (auto simp: is_digit_def)
    then have "lex_number (c # cs) = Some (Finite y, rest)"
      using v t(1) by (simp add: lex_number_def)
    then show ?thesis using 2 t(1) by simp
  next
    case 3
    then have p: "0 < - y" by simp
    have d: "is_double (- y)" using assms(1) by (simp add: is_double_minus)
    from lex_unsigned_pos_toString[OF p d assms(2)] obtain v where
      v: "lex_unsigned (pos_toString (- y) @ rest) = Some (v, rest)" "to_double v = Finite (- y)"
      by blast
    then have "to_double (- v) = Finite y" by (simp add: to_double_minus)
    then show ?thesis using 3 v(1)
      by (simp add: lex_number_def js_def)
  qed
qed

lemma Number_toString_hd:
  assumes "is_double y" and "ends_number rest"
  shows "\<exists>c cs. Number_toString (Finite y) @ rest = c # cs \<and> (c = 45 \<or> is_digit c)"
proof -
  consider "y = 0" | "0 < y" | "y < 0" by linarith
  then show ?thesis
  proof cases
    case 1
    then show ?thesis by (simp add: js_def is_digit_def)
  next
    case 2
    from lex_unsigned_pos_toString[OF 2 assms] obtain v where
      "lex_unsigned (pos_toString y @ rest) = Some (v, rest)" by blast
    from lex_unsigned_hd[OF this] show ?thesis
      using 2 by (cases "pos_toString y @ rest") auto
  next
    case 3
    then show ?thesis by (simp add: js_def)
  qed
qed

lemma tokenize_number:
  assumes "is_double y" and "ends_number rest"
  shows "tokenize (Number_toString (Finite y) @ rest)
         = map_option (Cons (TNumber (Finite y))) (tokenize rest)"
proof -
  from Number_toString_hd[OF assms] obtain c cs where
    t: "Number_toString (Finite y) @ rest = c # cs" and c: "c = 45 \<or> is_digit c"
    by blast
  have l: "lex_number (c # cs) = Some (Finite y, rest)"
    using lex_number_toString[OF assms] t by simp
  from c have n: "c \<noteq> 32" "c \<noteq> 9" "c \<noteq> 10" "c \<noteq> 13" "c \<noteq> 91" "c \<noteq> 93" "c \<noteq> 123"
    "c \<noteq> 125" "c \<noteq> 58" "c \<noteq> 44" "c \<noteq> 34"
    by (auto simp: is_digit_def)
  show ?thesis
    unfolding t using n c l by (simp add: tokenize.simps)
qed

end
